theory Spec2Isabelle
  imports Main "HOL-Library.Sublist"
begin

section \<open>JavaScript strings\<close>

text \<open>
  A JavaScript string is modelled as a \<^typ>\<open>string\<close>: one \<^typ>\<open>char\<close> stands for one
  code unit, so \<open>length\<close> is the \<open>.length\<close> of the source.  The functions below work
  on code units alone.  \<open>trim\<close> and \<open>toLowerCase\<close>, which follow the Unicode tables of
  the runtime, are not defined here: they are taken from the runtime as they are.
\<close>

text \<open>\<open>s.split(c)\<close> for a one-character separator: never the empty array.\<close>

fun str_split :: "char \<Rightarrow> string \<Rightarrow> string list" where
  "str_split c [] = [[]]"
| "str_split c (x # xs) =
     (if x = c then [] # str_split c xs
      else (case str_split c xs of h # t \<Rightarrow> (x # h) # t | [] \<Rightarrow> [[x]]))"

text \<open>\<open>xs.join(sep)\<close>.\<close>

fun str_join :: "string \<Rightarrow> string list \<Rightarrow> string" where
  "str_join sep [] = []"
| "str_join sep [x] = x"
| "str_join sep (x # y # ys) = x @ sep @ str_join sep (y # ys)"

definition startsWith :: "string \<Rightarrow> string \<Rightarrow> bool" where
  "startsWith s p = (take (length p) s = p)"

definition endsWith :: "string \<Rightarrow> string \<Rightarrow> bool" where
  "endsWith s p = (length p \<le> length s \<and> drop (length s - length p) s = p)"

text \<open>\<open>s.includes(q)\<close>: some suffix of \<open>s\<close> starts with \<open>q\<close>.\<close>

fun str_includes :: "string \<Rightarrow> string \<Rightarrow> bool" where
  "str_includes [] q = (q = [])"
| "str_includes (x # xs) q = (startsWith (x # xs) q \<or> str_includes xs q)"

text \<open>\<open>s.indexOf(q)\<close>: the first position where \<open>q\<close> occurs, or \<open>-1\<close>.\<close>

fun indexOf :: "string \<Rightarrow> string \<Rightarrow> int" where
  "indexOf [] q = (if q = [] then 0 else - 1)"
| "indexOf (x # xs) q =
     (if startsWith (x # xs) q then 0
      else (let r = indexOf xs q in if r < 0 then - 1 else r + 1))"

text \<open>
  \<open>xs.slice(a, b)\<close>, of a string or an array: a negative index counts from the end, and
  both are clamped to the length.
\<close>

definition js_slice :: "'a list \<Rightarrow> int \<Rightarrow> int \<Rightarrow> 'a list" where
  "js_slice xs a b =
     (let len = int (length xs);
          k = (if a < 0 then max (len + a) 0 else min a len);
          final = (if b < 0 then max (len + b) 0 else min b len)
      in take (nat (final - k)) (drop (nat k) xs))"

text \<open>\<open>s.replace(pat, rep)\<close> for a string pattern: the first occurrence only.\<close>

fun str_replace :: "string \<Rightarrow> string \<Rightarrow> string \<Rightarrow> string" where
  "str_replace [] pat rep = (if pat = [] then rep else [])"
| "str_replace (x # xs) pat rep =
     (if startsWith (x # xs) pat then rep @ drop (length pat) (x # xs)
      else x # str_replace xs pat rep)"

section \<open>The POSIX \<open>path\<close> module\<close>

text \<open>
  \<open>normalizeString\<close>: the segments of a path are read from left to right onto a stack;
  empty segments and \<open>.\<close> are dropped, \<open>..\<close> removes the segment before it (above the
  root it is dropped for an absolute path and kept for a relative one).
\<close>

fun normalizeSegments :: "bool \<Rightarrow> string list \<Rightarrow> string list \<Rightarrow> string list" where
  "normalizeSegments allowAboveRoot res [] = res"
| "normalizeSegments allowAboveRoot res (s # ss) =
     (if s = [] \<or> s = ''.'' then normalizeSegments allowAboveRoot res ss
      else if s = ''..'' then
        (if res \<noteq> [] \<and> last res \<noteq> ''..'' then normalizeSegments allowAboveRoot (butlast res) ss
         else if allowAboveRoot then normalizeSegments allowAboveRoot (res @ [s]) ss
         else normalizeSegments allowAboveRoot res ss)
      else normalizeSegments allowAboveRoot (res @ [s]) ss)"

definition path_normalize :: "string \<Rightarrow> string" where
  "path_normalize p =
     (if p = [] then ''.''
      else
        (let isAbsolute = (hd p = CHR ''/'');
             trailingSeparator = (last p = CHR ''/'');
             body = str_join ''/'' (normalizeSegments (\<not> isAbsolute) [] (str_split CHR ''/'' p))
         in if body = [] then
              (if isAbsolute then ''/'' else if trailingSeparator then ''./'' else ''.'')
            else
              (let body' = (if trailingSeparator then body @ ''/'' else body)
               in if isAbsolute then CHR ''/'' # body' else body')))"

text \<open>\<open>path.join(a, b)\<close>: empty arguments are ignored, the rest is normalised.\<close>

definition path_join :: "string \<Rightarrow> string \<Rightarrow> string" where
  "path_join a b =
     (let joined = str_join ''/'' (filter (\<lambda>s. s \<noteq> []) [a, b])
      in if joined = [] then ''.'' else path_normalize joined)"

definition path_join3 :: "string \<Rightarrow> string \<Rightarrow> string \<Rightarrow> string" where
  "path_join3 a b c =
     (let joined = str_join ''/'' (filter (\<lambda>s. s \<noteq> []) [a, b, c])
      in if joined = [] then ''.'' else path_normalize joined)"

text \<open>
  \<open>path.dirname(p)\<close>: trailing slashes are skipped, then the path is cut at the last slash
  found at an index of at least one.
\<close>

definition path_dirname :: "string \<Rightarrow> string" where
  "path_dirname p =
     (if p = [] then ''.''
      else
        (let hasRoot = (hd p = CHR ''/'');
             r = dropWhile (\<lambda>c. c \<noteq> CHR ''/'') (dropWhile (\<lambda>c. c = CHR ''/'') (rev (tl p)))
         in if r = [] then (if hasRoot then ''/'' else ''.'')
            else if hasRoot \<and> length r = 1 then ''//''
            else take (length r) p))"

text \<open>\<open>path.basename(p)\<close>: the last segment, trailing slashes skipped.\<close>

definition path_basename :: "string \<Rightarrow> string" where
  "path_basename p =
     rev (takeWhile (\<lambda>c. c \<noteq> CHR ''/'') (dropWhile (\<lambda>c. c = CHR ''/'') (rev p)))"

section \<open>The file system\<close>

datatype fs_error = ENOENT | EACCES | ENOTDIR | EISDIR

text \<open>A JavaScript \<open>Date\<close>: its time value in milliseconds, \<open>None\<close> for an invalid date.\<close>

type_synonym Date = "int option"

record Dirent =
  name :: string
  isDirectory :: bool

record Stats =
  size :: nat
  birthtime :: Date
  mtime :: Date

text \<open>
  What the \<open>fs\<close> module answers for each path.  The source only reads, so a file system is
  a record of functions of the path; every call that can throw returns a sum.
\<close>

record FS =
  fs_exists :: "string \<Rightarrow> bool"
  fs_readdir :: "string \<Rightarrow> fs_error + Dirent list"
  fs_stat :: "string \<Rightarrow> fs_error + Stats"
  fs_readFile :: "string \<Rightarrow> fs_error + string"

text \<open>\<open>fs.existsSync\<close> never throws, and answers \<open>false\<close> for the empty path.\<close>

definition existsSync :: "FS \<Rightarrow> string \<Rightarrow> bool" where
  "existsSync fs p = (p \<noteq> [] \<and> fs_exists fs p)"

section \<open>PathCodec: \<open>decodeProjectPath\<close>, \<open>findValidPath\<close>, \<open>encodeProjectPath\<close>\<close>

text \<open>JavaScript truthiness of a \<open>string | null\<close>.\<close>

fun truthy :: "string option \<Rightarrow> bool" where
  "truthy None = False"
| "truthy (Some s) = (s \<noteq> [])"

function findValidPath :: "FS \<Rightarrow> string list \<Rightarrow> nat \<Rightarrow> string \<Rightarrow> string option" where
  "findValidPath fs parts index currentPath =
     (if index \<ge> length parts then
        (if existsSync fs currentPath then Some currentPath else None)
      else
        (let asNewComponent = path_join currentPath (parts ! index);
             resultNew = findValidPath fs parts (index + 1) asNewComponent
         in if truthy resultNew then resultNew
            else if currentPath \<noteq> ''/'' then
              (let parentDir = path_dirname currentPath;
                   currentName = path_basename currentPath;
                   joinedName = currentName @ ''-'' @ parts ! index;
                   asJoined = path_join parentDir joinedName;
                   resultJoined = findValidPath fs parts (index + 1) asJoined
               in if truthy resultJoined then resultJoined else None)
            else None))"
  by pat_completeness auto
termination
  by (relation "measure (\<lambda>(fs, parts, index, currentPath). length parts - index)") auto

declare findValidPath.simps [simp del]

text \<open>The tokens of an encoded name: \<open>encoded.replace(/^-/, '').split('-')\<close>.\<close>

definition encodedParts :: "string \<Rightarrow> string list" where
  "encodedParts encoded =
     (let withoutLeading = (if startsWith encoded ''-'' then tl encoded else encoded)
      in str_split CHR ''-'' withoutLeading)"

definition decodeProjectPath :: "FS \<Rightarrow> string \<Rightarrow> string" where
  "decodeProjectPath fs encoded =
     (let parts = encodedParts encoded;
          decoded = findValidPath fs parts 0 ''/''
      in if truthy decoded then the decoded else ''/'' @ str_join ''/'' parts)"

definition encodeProjectPath :: "string \<Rightarrow> string" where
  "encodeProjectPath projectPath = map (\<lambda>c. if c = CHR ''/'' then CHR ''-'' else c) projectPath"

text \<open>
  The complete interpretations of the tokens from \<open>index\<close> on, in the order in which the
  search reaches them: new segment first, dash continuation second.
\<close>

function candidates :: "string list \<Rightarrow> nat \<Rightarrow> string \<Rightarrow> string list" where
  "candidates parts index currentPath =
     (if index \<ge> length parts then [currentPath]
      else
        candidates parts (index + 1) (path_join currentPath (parts ! index)) @
        (if currentPath \<noteq> ''/'' then
           candidates parts (index + 1)
             (path_join (path_dirname currentPath)
                (path_basename currentPath @ ''-'' @ parts ! index))
         else []))"
  by pat_completeness auto
termination
  by (relation "measure (\<lambda>(parts, index, currentPath). length parts - index)") auto

declare candidates.simps [simp del]

text \<open>
  The calls of \<open>fs.existsSync\<close> that one run of \<open>findValidPath\<close> makes, in order.  The
  control flow is that of \<open>findValidPath\<close>: the only call stands in the branch where all
  tokens are consumed.
\<close>

function findValidPath_probes :: "FS \<Rightarrow> string list \<Rightarrow> nat \<Rightarrow> string \<Rightarrow> string list" where
  "findValidPath_probes fs parts index currentPath =
     (if index \<ge> length parts then [currentPath]
      else
        (let asNewComponent = path_join currentPath (parts ! index);
             resultNew = findValidPath fs parts (index + 1) asNewComponent;
             probesNew = findValidPath_probes fs parts (index + 1) asNewComponent
         in if truthy resultNew then probesNew
            else if currentPath \<noteq> ''/'' then
              (let parentDir = path_dirname currentPath;
                   currentName = path_basename currentPath;
                   joinedName = currentName @ ''-'' @ parts ! index;
                   asJoined = path_join parentDir joinedName
               in probesNew @ findValidPath_probes fs parts (index + 1) asJoined)
            else probesNew))"
  by pat_completeness auto
termination
  by (relation "measure (\<lambda>(fs, parts, index, currentPath). length parts - index)") auto

declare findValidPath_probes.simps [simp del]

text \<open>The same interpretations, by recursion on the tokens that are left.\<close>

fun candidates_from :: "string list \<Rightarrow> string \<Rightarrow> string list" where
  "candidates_from [] currentPath = [currentPath]"
| "candidates_from (t # ts) currentPath =
     candidates_from ts (path_join currentPath t) @
     (if currentPath \<noteq> ''/'' then
        candidates_from ts (path_join (path_dirname currentPath) (path_basename currentPath @ ''-'' @ t))
      else [])"

text \<open>
  An absolute path in normal form is a slash followed by its segments joined by slashes.
  A segment is one directory name: it has no slash, and is neither empty, \<open>.\<close> nor
  \<open>..\<close>.  The search can rebuild a segment when its first dash-separated token is
  itself such a name.
\<close>

definition renderPath :: "string list \<Rightarrow> string" where
  "renderPath segs = ''/'' @ str_join ''/'' segs"

definition segmentName :: "string \<Rightarrow> bool" where
  "segmentName s = (s \<noteq> [] \<and> CHR ''/'' \<notin> set s \<and> s \<noteq> ''.'' \<and> s \<noteq> ''..'')"

definition recoverableSegment :: "string \<Rightarrow> bool" where
  "recoverableSegment s = (CHR ''/'' \<notin> set s \<and> segmentName (hd (str_split CHR ''-'' s)))"

section \<open>Transcript entries\<close>

text \<open>
  The entry of one transcript line, as the interface \<open>SessionEntry\<close> of the source
  declares it; an optional field is an \<open>option\<close>.  The content of a message is a string
  or an array of blocks; \<open>OtherContent\<close> stands for any other value, which the source
  reads as the empty text.  An element of the array that is \<open>null\<close> is \<open>None\<close>: reading
  a property of it throws.
\<close>

record ContentBlock =
  b_type :: string
  b_text :: "string option"
  b_name :: "string option"
  b_input :: "string option"

datatype MessageContent = Str string | Blocks "ContentBlock option list" | OtherContent

record Message =
  role :: string
  content :: MessageContent

record SessionEntry =
  e_type :: string
  e_sessionId :: "string option"
  e_summary :: "string option"
  e_timestamp :: "string option"
  e_cwd :: "string option"
  e_message :: "Message option"
  e_uuid :: "string option"
  e_parentUuid :: "string option"
  e_isSidechain :: "bool option"

record ClaudeSession =
  s_id :: string
  projectPath :: string
  startTime :: Date
  lastActivityTime :: Date
  messageCount :: nat
  isActive :: bool
  autoGeneratedName :: "string option"

text \<open>
  What the JavaScript runtime provides, taken as it is: \<open>JSON.parse\<close> on a line (\<open>None\<close>
  when the line does not parse to an entry, which the source catches), \<open>new Date(s)\<close> on
  a timestamp string, \<open>new Date()\<close>, \<open>String.prototype.toLowerCase\<close> and
  \<open>String.prototype.trim\<close> (both follow the Unicode tables of the runtime, and lowering
  may change the length of a string), and the order in which \<open>Array.prototype.sort\<close>
  leaves an array whose comparator is not consistent, which the language leaves to the
  implementation.  Nothing is assumed of them.
\<close>

record JS =
  json_parse :: "string \<Rightarrow> SessionEntry option"
  date_parse :: "string \<Rightarrow> Date"
  date_now :: Date
  toLowerCase :: "string \<Rightarrow> string"
  trim :: "string \<Rightarrow> string"
  engine_sort :: "(ClaudeSession \<Rightarrow> ClaudeSession \<Rightarrow> int option) \<Rightarrow> ClaudeSession list \<Rightarrow> ClaudeSession list"

text \<open>\<open>a < b\<close> on dates compares the time values; with an invalid date it is false.\<close>

fun date_less :: "Date \<Rightarrow> Date \<Rightarrow> bool" where
  "date_less (Some x) (Some y) = (x < y)"
| "date_less _ _ = False"

section \<open>SessionIndexer: \<open>parseSessionFile\<close> and \<open>getSessions\<close>\<close>

text \<open>The local variables of \<open>parseSessionFile\<close> that its loop updates.\<close>

record ParseState =
  p_summary :: "string option"
  p_messageCount :: nat
  p_firstTimestamp :: "Date option"
  p_lastTimestamp :: "Date option"
  p_cwd :: "string option"
  p_firstUserMessage :: "string option"
  p_hasRealContent :: bool
  p_isSidechain :: bool

definition initialState :: ParseState where
  "initialState =
     \<lparr>p_summary = None, p_messageCount = 0, p_firstTimestamp = None, p_lastTimestamp = None,
      p_cwd = None, p_firstUserMessage = None, p_hasRealContent = False, p_isSidechain = False\<rparr>"

text \<open>
  The text of a message, as the warmup check reads it (before trimming):
  \<open>content.map(b => b.text || '').join('')\<close> for an array, which throws (\<open>None\<close>) when an
  element is \<open>null\<close>.
\<close>

definition messageText :: "Message \<Rightarrow> string option" where
  "messageText m =
     (case content m of
        Str s \<Rightarrow> Some s
      | Blocks bs \<Rightarrow>
          if list_all (\<lambda>b. b \<noteq> None) bs
          then Some (concat (map (\<lambda>b. if truthy (b_text (the b)) then the (b_text (the b)) else []) bs))
          else None
      | OtherContent \<Rightarrow> Some [])"

text \<open>
  The body of the loop over the lines, for a line that parsed to \<open>entry\<close>: its five
  statements in turn.  First \<open>if (entry.isSidechain) isSidechain = true\<close>.
\<close>

definition markSidechain :: "SessionEntry \<Rightarrow> ParseState \<Rightarrow> ParseState" where
  "markSidechain entry st =
     (if e_isSidechain entry = Some True then st\<lparr>p_isSidechain := True\<rparr> else st)"

text \<open>\<open>if (entry.type === 'summary' && entry.summary) summary = entry.summary\<close>.\<close>

definition takeSummary :: "SessionEntry \<Rightarrow> ParseState \<Rightarrow> ParseState" where
  "takeSummary entry st =
     (if e_type entry = ''summary'' \<and> truthy (e_summary entry)
      then st\<lparr>p_summary := e_summary entry\<rparr> else st)"

text \<open>The earliest and the latest timestamp.\<close>

definition trackTimestamps :: "JS \<Rightarrow> SessionEntry \<Rightarrow> ParseState \<Rightarrow> ParseState" where
  "trackTimestamps js entry st =
     (if truthy (e_timestamp entry) then
        (let ts = date_parse js (the (e_timestamp entry));
             st' = (if p_firstTimestamp st = None \<or> date_less ts (the (p_firstTimestamp st))
                    then st\<lparr>p_firstTimestamp := Some ts\<rparr> else st)
         in if p_lastTimestamp st' = None \<or> date_less (the (p_lastTimestamp st')) ts
            then st'\<lparr>p_lastTimestamp := Some ts\<rparr> else st')
      else st)"

text \<open>
  The count of the messages, the first user message (\<open>!firstUserMessage\<close> is true of
  \<open>undefined\<close> and of the empty string) and the mark of an assistant message.  The
  statement throws when the text of the message cannot be read: \<open>Inl\<close> carries the
  variables as they are at that moment, the count already increased.
\<close>

definition countMessage :: "JS \<Rightarrow> SessionEntry \<Rightarrow> ParseState \<Rightarrow> ParseState + ParseState" where
  "countMessage js entry st =
     (if e_type entry = ''user'' \<or> e_type entry = ''assistant'' then
        (let counted = st\<lparr>p_messageCount := p_messageCount st + 1\<rparr> in
         case (if e_type entry = ''user'' \<and> \<not> truthy (p_firstUserMessage counted) \<and>
                  e_message entry \<noteq> None
               then (case messageText (the (e_message entry)) of
                       None \<Rightarrow> Inl counted
                     | Some msgContent \<Rightarrow>
                         Inr (counted\<lparr>p_firstUserMessage := Some (trim js msgContent)\<rparr>))
               else Inr counted) of
           Inl thrown \<Rightarrow> Inl thrown
         | Inr st' \<Rightarrow>
             Inr (if e_type entry = ''assistant'' then st'\<lparr>p_hasRealContent := True\<rparr> else st'))
      else Inr st)"

text \<open>\<open>if (entry.cwd && !cwd) cwd = entry.cwd\<close>.\<close>

definition takeCwd :: "SessionEntry \<Rightarrow> ParseState \<Rightarrow> ParseState" where
  "takeCwd entry st =
     (if truthy (e_cwd entry) \<and> \<not> truthy (p_cwd st) then st\<lparr>p_cwd := e_cwd entry\<rparr> else st)"

text \<open>
  The whole body.  A throw inside it is caught by the \<open>catch { continue; }\<close> of the loop:
  what was assigned before the throw stays, the rest of the body is skipped.
\<close>

definition processEntry :: "JS \<Rightarrow> ParseState \<Rightarrow> SessionEntry \<Rightarrow> ParseState" where
  "processEntry js st entry =
     (case countMessage js entry
             (trackTimestamps js entry
                (takeSummary entry
                   (markSidechain entry st))) of
        Inl thrown \<Rightarrow> thrown
      | Inr st' \<Rightarrow> takeCwd entry st')"

definition processLine :: "JS \<Rightarrow> ParseState \<Rightarrow> string \<Rightarrow> ParseState" where
  "processLine js st line =
     (case json_parse js line of None \<Rightarrow> st | Some entry \<Rightarrow> processEntry js st entry)"

text \<open>\<open>content.trim().split('\n').filter(line => line.trim())\<close>.\<close>

definition fileLines :: "JS \<Rightarrow> string \<Rightarrow> string list" where
  "fileLines js text =
     filter (\<lambda>line. trim js line \<noteq> []) (str_split CHR 0x0A (trim js text))"

text \<open>
  \<open>parseSessionFile\<close>: \<open>Inl\<close> when \<open>statSync\<close> or \<open>readFileSync\<close> throws, \<open>Inr None\<close>
  for \<open>null\<close>, \<open>Inr (Some s)\<close> for a session.
\<close>

definition parseSessionFile ::
  "JS \<Rightarrow> FS \<Rightarrow> string \<Rightarrow> string \<Rightarrow> string \<Rightarrow> fs_error + ClaudeSession option" where
  "parseSessionFile js fs filePath sessionId projPath =
     (case fs_stat fs filePath of
        Inl e \<Rightarrow> Inl e
      | Inr stats \<Rightarrow>
          if size stats = 0 then Inr None
          else
            (case fs_readFile fs filePath of
               Inl e \<Rightarrow> Inl e
             | Inr text \<Rightarrow>
                 (let lines = fileLines js text in
                  if length lines = 0 then Inr None
                  else
                    (let st = foldl (processLine js) initialState lines in
                     if p_firstUserMessage st = Some ''Warmup'' then Inr None
                     else if p_isSidechain st then Inr None
                     else if \<not> p_hasRealContent st \<and> p_messageCount st < 2 then Inr None
                     else
                       Inr (Some
                         \<lparr>s_id = sessionId,
                          projectPath = (if truthy (p_cwd st) then the (p_cwd st) else projPath),
                          startTime = (case p_firstTimestamp st of Some d \<Rightarrow> d
                                       | None \<Rightarrow> birthtime stats),
                          lastActivityTime = (case p_lastTimestamp st of Some d \<Rightarrow> d
                                              | None \<Rightarrow> mtime stats),
                          messageCount = p_messageCount st,
                          isActive = False,
                          autoGeneratedName = p_summary st\<rparr>)))))"

text \<open>
  \<open>Array.prototype.sort\<close>.  The answer of a comparator is a number, \<open>None\<close> for \<open>NaN\<close>.
  A comparator is consistent on the values of an array when it never answers \<open>NaN\<close>, is
  reflexive and symmetric where it answers zero, and transitive where it answers zero,
  below zero and above zero.  With a consistent comparator the result is the stable
  sorted order, computed here by insertion; otherwise the order is the implementation's
  (\<open>engine_sort\<close>).  The comparison of two elements reads \<open>NaN\<close> as zero.
\<close>

definition sortValue :: "int option \<Rightarrow> int" where
  "sortValue v = (case v of Some n \<Rightarrow> n | None \<Rightarrow> 0)"

definition consistentOn :: "('a \<Rightarrow> 'a \<Rightarrow> int option) \<Rightarrow> 'a list \<Rightarrow> bool" where
  "consistentOn cmp xs =
     list_all (\<lambda>a.
       cmp a a = Some 0 \<and>
       list_all (\<lambda>b.
         cmp a b \<noteq> None \<and>
         (if cmp a b = Some 0 then cmp b a = Some 0 else True) \<and>
         list_all (\<lambda>c.
           (if cmp a b = Some 0 \<and> cmp b c = Some 0 then cmp a c = Some 0 else True) \<and>
           (if sortValue (cmp a b) < 0 \<and> sortValue (cmp b c) < 0
            then sortValue (cmp a c) < 0 else True) \<and>
           (if 0 < sortValue (cmp a b) \<and> 0 < sortValue (cmp b c)
            then 0 < sortValue (cmp a c) else True)) xs) xs) xs"

fun insertBy :: "('a \<Rightarrow> 'a \<Rightarrow> int option) \<Rightarrow> 'a \<Rightarrow> 'a list \<Rightarrow> 'a list" where
  "insertBy cmp x [] = [x]"
| "insertBy cmp x (y # ys) =
     (if sortValue (cmp x y) \<le> 0 then x # y # ys else y # insertBy cmp x ys)"

definition js_sort ::
  "JS \<Rightarrow> (ClaudeSession \<Rightarrow> ClaudeSession \<Rightarrow> int option) \<Rightarrow> ClaudeSession list \<Rightarrow>
   ClaudeSession list" where
  "js_sort js cmp xs =
     (if consistentOn cmp xs then foldr (insertBy cmp) xs [] else engine_sort js cmp xs)"

text \<open>
  The comparator of the source, \<open>b.lastActivityTime.getTime() - a.lastActivityTime.getTime()\<close>:
  the difference of the two time values, and \<open>NaN\<close> when a date is invalid.  (The
  difference of two time values as a floating-point number has the sign of the exact
  difference, and \<open>sort\<close> reads the sign only.)
\<close>

definition byLastActivity :: "ClaudeSession \<Rightarrow> ClaudeSession \<Rightarrow> int option" where
  "byLastActivity a b =
     (case (lastActivityTime b, lastActivityTime a) of
        (Some tb, Some ta) \<Rightarrow> Some (tb - ta)
      | _ \<Rightarrow> None)"

text \<open>The inner loop of \<open>getSessions\<close>: a file that throws or gives \<open>null\<close> is skipped.\<close>

fun scanFiles ::
  "JS \<Rightarrow> FS \<Rightarrow> string \<Rightarrow> string \<Rightarrow> string list \<Rightarrow> ClaudeSession list \<Rightarrow> ClaudeSession list" where
  "scanFiles js fs projectDirPath decodedProjectPath [] sessions = sessions"
| "scanFiles js fs projectDirPath decodedProjectPath (sessionFile # rest) sessions =
     (let sessionId = str_replace sessionFile ''.jsonl'' [];
          sessionFilePath = path_join projectDirPath sessionFile
      in case parseSessionFile js fs sessionFilePath sessionId decodedProjectPath of
           Inr (Some session) \<Rightarrow>
             scanFiles js fs projectDirPath decodedProjectPath rest (sessions @ [session])
         | Inr None \<Rightarrow> scanFiles js fs projectDirPath decodedProjectPath rest sessions
         | Inl e \<Rightarrow> scanFiles js fs projectDirPath decodedProjectPath rest sessions)"

definition isSessionFile :: "string \<Rightarrow> bool" where
  "isSessionFile f = (endsWith f ''.jsonl'' \<and> \<not> startsWith f ''.'' \<and> \<not> startsWith f ''agent-'')"

text \<open>The outer loop: \<open>readdirSync\<close> of a project directory is outside the \<open>try\<close>.\<close>

fun scanProjects ::
  "JS \<Rightarrow> FS \<Rightarrow> string \<Rightarrow> Dirent list \<Rightarrow> ClaudeSession list \<Rightarrow> fs_error + ClaudeSession list" where
  "scanProjects js fs projectsPath [] sessions = Inr sessions"
| "scanProjects js fs projectsPath (projectDir # rest) sessions =
     (let projectDirPath = path_join projectsPath (name projectDir);
          decodedProjectPath = decodeProjectPath fs (name projectDir)
      in case fs_readdir fs projectDirPath of
           Inl e \<Rightarrow> Inl e
         | Inr entries \<Rightarrow>
             scanProjects js fs projectsPath rest
               (scanFiles js fs projectDirPath decodedProjectPath
                  (filter isSessionFile (map name entries)) sessions))"

definition isProjectDir :: "Dirent \<Rightarrow> bool" where
  "isProjectDir d = (isDirectory d \<and> \<not> startsWith (name d) ''.'')"

text \<open>Everything \<open>getSessions\<close> does after the check of the root and before the sort.\<close>

definition walkProjects :: "JS \<Rightarrow> FS \<Rightarrow> string \<Rightarrow> fs_error + ClaudeSession list" where
  "walkProjects js fs projectsPath =
     (case fs_readdir fs projectsPath of
        Inl e \<Rightarrow> Inl e
      | Inr entries \<Rightarrow> scanProjects js fs projectsPath (filter isProjectDir entries) [])"

definition getSessions :: "JS \<Rightarrow> FS \<Rightarrow> string \<Rightarrow> int \<Rightarrow> fs_error + ClaudeSession list" where
  "getSessions js fs projectsPath maxSessions =
     (if \<not> existsSync fs projectsPath then Inr []
      else
        (case walkProjects js fs projectsPath of
           Inl e \<Rightarrow> Inl e
         | Inr sessions \<Rightarrow> Inr (js_slice (js_sort js byLastActivity sessions) 0 maxSessions)))"

section \<open>TranscriptSearch: \<open>getSessionMessages\<close> and \<open>searchTranscripts\<close>\<close>

record ToolUse =
  t_name :: string
  t_input :: string

record ClaudeMessage =
  m_sessionId :: string
  m_role :: string
  m_content :: string
  m_timestamp :: Date
  m_toolUse :: "ToolUse list option"

record SearchHit =
  session :: ClaudeSession
  message :: ClaudeMessage
  matchContext :: string

text \<open>The loop of \<open>findSessionFile\<close> over the project directories.\<close>

fun firstSessionFile :: "FS \<Rightarrow> string \<Rightarrow> string \<Rightarrow> Dirent list \<Rightarrow> string option" where
  "firstSessionFile fs projectsPath sessionId [] = None"
| "firstSessionFile fs projectsPath sessionId (projectDir # rest) =
     (let sessionFile = path_join3 projectsPath (name projectDir) (sessionId @ ''.jsonl'')
      in if existsSync fs sessionFile then Some sessionFile
         else firstSessionFile fs projectsPath sessionId rest)"

definition findSessionFile :: "FS \<Rightarrow> string \<Rightarrow> string \<Rightarrow> fs_error + string option" where
  "findSessionFile fs projectsPath sessionId =
     (if \<not> existsSync fs projectsPath then Inr None
      else
        (case fs_readdir fs projectsPath of
           Inl e \<Rightarrow> Inl e
         | Inr entries \<Rightarrow>
             Inr (firstSessionFile fs projectsPath sessionId (filter isProjectDir entries))))"

text \<open>
  The loop of \<open>parseMessage\<close> over the blocks: the text so far and the tools so far.
  Reading \<open>block.type\<close> of a \<open>null\<close> block throws (\<open>None\<close>).
\<close>

fun parseBlocks ::
  "ContentBlock option list \<Rightarrow> string \<Rightarrow> ToolUse list \<Rightarrow> (string \<times> ToolUse list) option" where
  "parseBlocks [] text toolUse = Some (text, toolUse)"
| "parseBlocks (None # rest) text toolUse = None"
| "parseBlocks (Some block # rest) text toolUse =
     (if b_type block = ''text'' \<and> truthy (b_text block)
      then parseBlocks rest (text @ the (b_text block)) toolUse
      else if b_type block = ''tool_use'' \<and> truthy (b_name block)
      then parseBlocks rest text
             (toolUse @ [\<lparr>t_name = the (b_name block),
                          t_input = (case b_input block of Some i \<Rightarrow> i | None \<Rightarrow> ''{}'')\<rparr>])
      else parseBlocks rest text toolUse)"

definition parseMessage :: "JS \<Rightarrow> string \<Rightarrow> SessionEntry \<Rightarrow> ClaudeMessage option" where
  "parseMessage js sessionId entry =
     (case (case e_message entry of
              None \<Rightarrow> Some ([], [])
            | Some m \<Rightarrow>
                (case content m of
                   Str s \<Rightarrow> Some (s, [])
                 | Blocks bs \<Rightarrow> parseBlocks bs [] []
                 | OtherContent \<Rightarrow> Some ([], []))) of
        None \<Rightarrow> None
      | Some (text, toolUse) \<Rightarrow>
          Some \<lparr>m_sessionId = sessionId,
                m_role = (case e_message entry of
                            Some m \<Rightarrow> if role m \<noteq> [] then role m else ''user''
                          | None \<Rightarrow> ''user''),
                m_content = text,
                m_timestamp = (if truthy (e_timestamp entry)
                               then date_parse js (the (e_timestamp entry)) else date_now js),
                m_toolUse = (if length toolUse > 0 then Some toolUse else None)\<rparr>)"

text \<open>
  The messages of the lines of one file, in file order.  A line that does not parse, or
  whose message throws in \<open>parseMessage\<close>, is skipped by the \<open>catch\<close> of the loop.
\<close>

fun lineMessages :: "JS \<Rightarrow> string \<Rightarrow> string list \<Rightarrow> ClaudeMessage list" where
  "lineMessages js sessionId [] = []"
| "lineMessages js sessionId (line # rest) =
     (case json_parse js line of
        None \<Rightarrow> lineMessages js sessionId rest
      | Some entry \<Rightarrow>
          if (e_type entry = ''user'' \<or> e_type entry = ''assistant'') \<and> e_message entry \<noteq> None
          then (case parseMessage js sessionId entry of
                  Some msg \<Rightarrow> msg # lineMessages js sessionId rest
                | None \<Rightarrow> lineMessages js sessionId rest)
          else lineMessages js sessionId rest)"

text \<open>\<open>getSessionMessages\<close>: the read of the file is not guarded, so it can throw.\<close>

definition getSessionMessages :: "JS \<Rightarrow> FS \<Rightarrow> string \<Rightarrow> string \<Rightarrow> fs_error + ClaudeMessage list" where
  "getSessionMessages js fs projectsPath sessionId =
     (case findSessionFile fs projectsPath sessionId of
        Inl e \<Rightarrow> Inl e
      | Inr None \<Rightarrow> Inr []
      | Inr (Some sessionFile) \<Rightarrow>
          (case fs_readFile fs sessionFile of
             Inl e \<Rightarrow> Inl e
           | Inr text \<Rightarrow> Inr (lineMessages js sessionId (fileLines js text))))"

text \<open>The context that \<open>searchTranscripts\<close> cuts around the first match.\<close>

definition matchContextOf :: "JS \<Rightarrow> string \<Rightarrow> string \<Rightarrow> string" where
  "matchContextOf js query text =
     (let idx = indexOf (toLowerCase js text) (toLowerCase js query);
          start = max 0 (idx - 50);
          final = min (int (length text)) (idx + int (length query) + 50)
      in (if start > 0 then ''...'' else []) @ js_slice text start final @
         (if final < int (length text) then ''...'' else []))"

text \<open>
  The inner loop of \<open>searchTranscripts\<close> over the messages of one session.  The second
  component of the result says that the function returned from inside the loop.
\<close>

fun searchMessages ::
  "JS \<Rightarrow> string \<Rightarrow> int \<Rightarrow> ClaudeSession \<Rightarrow> ClaudeMessage list \<Rightarrow> SearchHit list \<Rightarrow>
   SearchHit list \<times> bool" where
  "searchMessages js query maxResults sess [] results = (results, False)"
| "searchMessages js query maxResults sess (msg # rest) results =
     (if str_includes (toLowerCase js (m_content msg)) (toLowerCase js query) then
        (let results' = results @
               [\<lparr>session = sess, message = msg,
                 matchContext = matchContextOf js query (m_content msg)\<rparr>]
         in if int (length results') \<ge> maxResults then (results', True)
            else searchMessages js query maxResults sess rest results')
      else searchMessages js query maxResults sess rest results)"

text \<open>The outer loop over the sessions.\<close>

fun searchSessions ::
  "JS \<Rightarrow> FS \<Rightarrow> string \<Rightarrow> string \<Rightarrow> int \<Rightarrow> ClaudeSession list \<Rightarrow> SearchHit list \<Rightarrow>
   fs_error + SearchHit list" where
  "searchSessions js fs projectsPath query maxResults [] results = Inr results"
| "searchSessions js fs projectsPath query maxResults (sess # rest) results =
     (case getSessionMessages js fs projectsPath (s_id sess) of
        Inl e \<Rightarrow> Inl e
      | Inr messages \<Rightarrow>
          (case searchMessages js query maxResults sess messages results of
             (results', True) \<Rightarrow> Inr results'
           | (results', False) \<Rightarrow> searchSessions js fs projectsPath query maxResults rest results'))"

definition searchTranscripts ::
  "JS \<Rightarrow> FS \<Rightarrow> string \<Rightarrow> string \<Rightarrow> int \<Rightarrow> fs_error + SearchHit list" where
  "searchTranscripts js fs projectsPath query maxResults =
     (case getSessions js fs projectsPath 200 of
        Inl e \<Rightarrow> Inl e
      | Inr sessions \<Rightarrow> searchSessions js fs projectsPath query maxResults sessions [])"

section \<open>Namer: \<open>extractTaskFocus\<close>\<close>

definition selfImprovementKeywords :: "string list" where
  "selfImprovementKeywords =
     [''self-improvement'', ''metacognition'', ''agent capabilities'',
      ''skill'', ''learning'', ''claude.md'', ''workflow'']"

definition globalKeywords :: "string list" where
  "globalKeywords =
     [''cross-project'', ''management'', ''organization'', ''cleanup'',
      ''session'', ''infrastructure'', ''backlog'']"

text \<open>The table \<open>knownProjects\<close>, in the order of its keys.\<close>

definition knownProjects :: "(string \<times> string) list" where
  "knownProjects =
     [(''corpus-search'', ''corpus-search''),
      (''corpus search'', ''corpus-search''),
      (''jhu'', ''JHU-hiring''),
      (''hiring'', ''JHU-hiring''),
      (''thompson'', ''JHU-hiring''),
      (''blame'', ''blame-theo''),
      (''kira'', ''agent-kira''),
      (''privacy'', ''agent-kira''),
      (''claims'', ''claims-secil''),
      (''compliant'', ''compliant-cameron''),
      (''deceptive'', ''deceptive-iman''),
      (''egonormous'', ''egonormous-sichao''),
      (''morebench'', ''even-more-bench-CY''),
      (''iaseai'', ''IASEAI''),
      (''workshop'', ''IASEAI''),
      (''notion'', ''notion-automation''),
      (''drone'', ''drone-import''),
      (''dji'', ''drone-import''),
      (''flight log'', ''drone-import''),
      (''email'', ''email-archive''),
      (''gmail'', ''email-archive''),
      (''slack'', ''slack-integration''),
      (''news'', ''news-summary''),
      (''session manager'', ''claude-session-manager''),
      (''extension'', ''claude-session-manager''),
      (''vscode'', ''claude-session-manager''),
      (''cursor'', ''claude-session-manager''),
      (''slash command'', ''Global''),
      (''frontmatter'', ''Global'')]"

text \<open>\<open>for (const kw of kws) if (summaryLower.includes(kw)) return ...\<close>: does the loop return?\<close>

fun anyKeyword :: "string \<Rightarrow> string list \<Rightarrow> bool" where
  "anyKeyword summaryLower [] = False"
| "anyKeyword summaryLower (kw # rest) =
     (if str_includes summaryLower kw then True else anyKeyword summaryLower rest)"

text \<open>The loop over the entries of the table: the project of the first keyword found.\<close>

fun firstProject :: "string \<Rightarrow> (string \<times> string) list \<Rightarrow> string option" where
  "firstProject summaryLower [] = None"
| "firstProject summaryLower ((keyword, project) # rest) =
     (if str_includes summaryLower keyword then Some project else firstProject summaryLower rest)"

text \<open>
  \<open>summary.match(/^([^:]+):/)\<close>: the text before the first colon, when there is a colon
  and it is not the first character.
\<close>

definition colonMatch :: "string \<Rightarrow> string option" where
  "colonMatch summary =
     (let before0 = takeWhile (\<lambda>c. c \<noteq> CHR '':'') summary
      in if before0 \<noteq> [] \<and> length before0 < length summary then Some before0 else None)"

definition extractTaskFocus :: "JS \<Rightarrow> string option \<Rightarrow> string" where
  "extractTaskFocus js summary =
     (if \<not> truthy summary then ''Session''
      else
        (let summaryLower = toLowerCase js (the summary) in
         if anyKeyword summaryLower selfImprovementKeywords then ''Self-improvement''
         else if anyKeyword summaryLower globalKeywords then ''Global''
         else
           (case firstProject summaryLower knownProjects of
              Some project \<Rightarrow> project
            | None \<Rightarrow>
                (case colonMatch (the summary) of
                   Some m \<Rightarrow>
                     (let beforeColon = trim js m
                      in if length beforeColon \<le> 30 \<and> length beforeColon \<ge> 3 then beforeColon
                         else ''Session'')
                 | None \<Rightarrow> ''Session''))))"

section \<open>The operations in the words of the specification\<close>

text \<open>
  The classification as the specification words it: no summary gives the default;
  otherwise ordered passes over the lowercased summary (the self-improvement keywords,
  the management keywords, the first entry of the project table whose keyword occurs),
  then, when the summary has the shape of a phrase followed by a colon and the phrase has
  3 to 30 characters, the phrase verbatim, then the default.
\<close>

definition classify_spec :: "JS \<Rightarrow> string option \<Rightarrow> string" where
  "classify_spec js summaryText =
     (case summaryText of
        None \<Rightarrow> ''Session''
      | Some s \<Rightarrow>
          (let lowered = toLowerCase js s in
           if list_ex (str_includes lowered) selfImprovementKeywords then ''Self-improvement''
           else if list_ex (str_includes lowered) globalKeywords then ''Global''
           else
             (case List.find (\<lambda>(keyword, project). str_includes lowered keyword) knownProjects of
                Some (keyword, project) \<Rightarrow> project
              | None \<Rightarrow>
                  (let pieces = str_split CHR '':'' s;
                       phrase = hd pieces
                   in if length pieces \<ge> 2 \<and> 3 \<le> length phrase \<and> length phrase \<le> 30
                      then phrase else ''Session''))))"

text \<open>
  The classification as amended: an empty summary counts as no summary, and in the fourth
  pass the text before the first colon (at least one character) is trimmed; the trimmed
  text is the category when it has 3 to 30 characters.
\<close>

definition classify_trimmed :: "JS \<Rightarrow> string option \<Rightarrow> string" where
  "classify_trimmed js summaryText =
     (case summaryText of
        None \<Rightarrow> ''Session''
      | Some s \<Rightarrow>
          if s = [] then ''Session''
          else
            (let lowered = toLowerCase js s in
             if list_ex (str_includes lowered) selfImprovementKeywords then ''Self-improvement''
             else if list_ex (str_includes lowered) globalKeywords then ''Global''
             else
               (case List.find (\<lambda>(keyword, project). str_includes lowered keyword) knownProjects of
                  Some (keyword, project) \<Rightarrow> project
                | None \<Rightarrow>
                    (let pieces = str_split CHR '':'' s;
                         phrase = trim js (hd pieces)
                     in if length pieces \<ge> 2 \<and> hd pieces \<noteq> [] \<and>
                           3 \<le> length phrase \<and> length phrase \<le> 30
                        then phrase else ''Session''))))"

text \<open>
  What the search is expected to give, in the words of the specification: a message matches
  when its lowercased text contains the lowercased query, the hits of a session are its
  matching messages in file order, and \<open>i\<close> is the first occurrence of \<open>q\<close> in \<open>l\<close>
  when \<open>q\<close> starts at \<open>i\<close> and at no earlier position.
\<close>

definition isMatch :: "JS \<Rightarrow> string \<Rightarrow> ClaudeMessage \<Rightarrow> bool" where
  "isMatch js query msg = str_includes (toLowerCase js (m_content msg)) (toLowerCase js query)"

definition hitOf :: "JS \<Rightarrow> string \<Rightarrow> ClaudeSession \<Rightarrow> ClaudeMessage \<Rightarrow> SearchHit" where
  "hitOf js query sess msg =
     \<lparr>session = sess, message = msg, matchContext = matchContextOf js query (m_content msg)\<rparr>"

definition sessionHits :: "JS \<Rightarrow> string \<Rightarrow> ClaudeSession \<Rightarrow> ClaudeMessage list \<Rightarrow> SearchHit list" where
  "sessionHits js query sess msgs = map (hitOf js query sess) (filter (isMatch js query) msgs)"

definition firstOccurrence :: "string \<Rightarrow> string \<Rightarrow> nat \<Rightarrow> bool" where
  "firstOccurrence l q i =
     (i \<le> length l \<and> startsWith (drop i l) q \<and>
      list_all (\<lambda>j. \<not> startsWith (drop j l) q) [0..<i])"

text \<open>
  The messages that the search reads for a session (none when the read throws), and all
  hits of a list of sessions, in the order of the sessions and then of each file.
\<close>

definition messagesOf :: "JS \<Rightarrow> FS \<Rightarrow> string \<Rightarrow> ClaudeSession \<Rightarrow> ClaudeMessage list" where
  "messagesOf js fs projectsPath sess =
     (case getSessionMessages js fs projectsPath (s_id sess) of
        Inr msgs \<Rightarrow> msgs
      | Inl e \<Rightarrow> [])"

definition corpusHits :: "JS \<Rightarrow> FS \<Rightarrow> string \<Rightarrow> string \<Rightarrow> ClaudeSession list \<Rightarrow> SearchHit list" where
  "corpusHits js fs projectsPath query sessions =
     concat (map (\<lambda>sess. sessionHits js query sess (messagesOf js fs projectsPath sess)) sessions)"

text \<open>Every session's transcript can be read.\<close>

definition readable :: "JS \<Rightarrow> FS \<Rightarrow> string \<Rightarrow> ClaudeSession list \<Rightarrow> bool" where
  "readable js fs projectsPath sessions =
     list_all (\<lambda>sess. case getSessionMessages js fs projectsPath (s_id sess) of
                          Inr msgs \<Rightarrow> True
                        | Inl e \<Rightarrow> False) sessions"

text \<open>The hit of the empty query on a message: the first 50 characters as context.\<close>

definition headHit :: "ClaudeSession \<Rightarrow> ClaudeMessage \<Rightarrow> SearchHit" where
  "headHit sess msg =
     \<lparr>session = sess, message = msg,
      matchContext = take 50 (m_content msg) @
                     (if 50 < length (m_content msg) then ''...'' else [])\<rparr>"

text \<open>
  What the walk is expected to collect: a session file contributes its session when it
  parses to one, and nothing when it throws or gives \<open>null\<close>; a project directory
  contributes the sessions of its session files, in the order of its listing.
\<close>

definition fileSessions :: "JS \<Rightarrow> FS \<Rightarrow> string \<Rightarrow> string \<Rightarrow> string list \<Rightarrow> ClaudeSession list" where
  "fileSessions js fs projectDirPath decodedProjectPath files =
     concat (map (\<lambda>f. case parseSessionFile js fs (path_join projectDirPath f)
                             (str_replace f ''.jsonl'' []) decodedProjectPath of
                        Inr (Some s) \<Rightarrow> [s]
                      | Inr None \<Rightarrow> []
                      | Inl e \<Rightarrow> []) files)"

definition projectSessions :: "JS \<Rightarrow> FS \<Rightarrow> string \<Rightarrow> Dirent \<Rightarrow> ClaudeSession list" where
  "projectSessions js fs projectsPath projectDir =
     (case fs_readdir fs (path_join projectsPath (name projectDir)) of
        Inr entries \<Rightarrow>
          fileSessions js fs (path_join projectsPath (name projectDir))
            (decodeProjectPath fs (name projectDir)) (filter isSessionFile (map name entries))
      | Inl e \<Rightarrow> [])"

text \<open>Every project directory of the listing can itself be listed.\<close>

definition listable :: "FS \<Rightarrow> string \<Rightarrow> Dirent list \<Rightarrow> bool" where
  "listable fs projectsPath entries =
     list_all (\<lambda>d. case fs_readdir fs (path_join projectsPath (name d)) of
                     Inr es \<Rightarrow> True
                   | Inl e \<Rightarrow> False) (filter isProjectDir entries)"

text \<open>The listing of a project directory throws with the error \<open>e\<close>.\<close>

definition unlistableWith :: "FS \<Rightarrow> string \<Rightarrow> fs_error \<Rightarrow> Dirent \<Rightarrow> bool" where
  "unlistableWith fs projectsPath e d =
     (isProjectDir d \<and> fs_readdir fs (path_join projectsPath (name d)) = Inl e)"

text \<open>Every session that the walk collects has a valid date as its last activity.\<close>

definition validActivityTimes :: "JS \<Rightarrow> FS \<Rightarrow> string \<Rightarrow> bool" where
  "validActivityTimes js fs projectsPath =
     (case walkProjects js fs projectsPath of
        Inr sessions \<Rightarrow> list_all (\<lambda>s. lastActivityTime s \<noteq> None) sessions
      | Inl e \<Rightarrow> True)"

text \<open>The time value of a valid date.\<close>

definition getTime :: "Date \<Rightarrow> int" where
  "getTime d = the d"

text \<open>
  The exclusion rules in the words of the specification.  The entries of a file are its
  non-empty lines that parse; the first user message is the first entry of type \<open>user\<close>
  that carries a message, and its text is the trimmed text of that message (none when
  the text cannot be read).
\<close>

definition parsedEntries :: "JS \<Rightarrow> string \<Rightarrow> SessionEntry list" where
  "parsedEntries js text = List.map_filter (json_parse js) (fileLines js text)"

definition isUserMessage :: "SessionEntry \<Rightarrow> bool" where
  "isUserMessage e = (e_type e = ''user'' \<and> e_message e \<noteq> None)"

definition userText :: "JS \<Rightarrow> SessionEntry \<Rightarrow> string option" where
  "userText js e = map_option (trim js) (messageText (the (e_message e)))"

definition firstUserMessageText :: "JS \<Rightarrow> SessionEntry list \<Rightarrow> string option" where
  "firstUserMessageText js entries =
     (case filter isUserMessage entries of [] \<Rightarrow> None | e # rest \<Rightarrow> userText js e)"

definition isSidechainEntry :: "SessionEntry \<Rightarrow> bool" where
  "isSidechainEntry e = (e_isSidechain e = Some True)"

definition isMessageEntry :: "SessionEntry \<Rightarrow> bool" where
  "isMessageEntry e = (e_type e = ''user'' \<or> e_type e = ''assistant'')"

definition exclusionRules :: "JS \<Rightarrow> nat \<Rightarrow> string \<Rightarrow> bool" where
  "exclusionRules js fileSize text =
     (let entries = parsedEntries js text in
      fileSize = 0 \<or>
      fileLines js text = [] \<or>
      firstUserMessageText js entries = Some ''Warmup'' \<or>
      list_ex isSidechainEntry entries \<or>
      (\<not> list_ex (\<lambda>e. e_type e = ''assistant'') entries \<and>
       length (filter isMessageEntry entries) < 2))"

text \<open>
  What the source keeps in \<open>firstUserMessage\<close>: the text of the first user message whose
  trimmed text can be read and is not empty (an empty text is falsy, so a later message
  replaces it).
\<close>

definition firstNonEmptyUserText :: "JS \<Rightarrow> SessionEntry list \<Rightarrow> string option" where
  "firstNonEmptyUserText js entries =
     (case filter (\<lambda>e. isUserMessage e \<and> truthy (userText js e)) entries of
        [] \<Rightarrow> None
      | e # rest \<Rightarrow> userText js e)"

text \<open>A hit is right when its message matches and its context is the one cut from it.\<close>

definition hitOk :: "JS \<Rightarrow> string \<Rightarrow> SearchHit \<Rightarrow> bool" where
  "hitOk js query h =
     (isMatch js query (message h) \<and>
      matchContext h = matchContextOf js query (m_content (message h)))"

section \<open>Examples\<close>

text \<open>A file system on which nothing exists.\<close>

definition emptyFS :: FS where
  "emptyFS =
     \<lparr>fs_exists = (\<lambda>p. False), fs_readdir = (\<lambda>p. Inl ENOENT),
      fs_stat = (\<lambda>p. Inl ENOENT), fs_readFile = (\<lambda>p. Inl ENOENT)\<rparr>"

text \<open>A file system on which exactly the listed paths exist.\<close>

definition fsOfPaths :: "string list \<Rightarrow> FS" where
  "fsOfPaths ps =
     \<lparr>fs_exists = (\<lambda>p. p \<in> set ps), fs_readdir = (\<lambda>p. Inl ENOENT),
      fs_stat = (\<lambda>p. Inl ENOENT), fs_readFile = (\<lambda>p. Inl ENOENT)\<rparr>"

text \<open>
  A file system in memory.  \<open>dirs\<close> gives the listing of each directory (\<open>None\<close> for a
  directory that cannot be read), \<open>files\<close> the text and the time of each file.
\<close>

definition memFS :: "(string \<times> Dirent list option) list \<Rightarrow> (string \<times> string \<times> int) list \<Rightarrow> FS" where
  "memFS dirs files =
     \<lparr>fs_exists = (\<lambda>p. map_of dirs p \<noteq> None \<or> map_of files p \<noteq> None),
      fs_readdir = (\<lambda>p. case map_of dirs p of
                           Some (Some entries) \<Rightarrow> Inr entries
                         | Some None \<Rightarrow> Inl EACCES
                         | None \<Rightarrow> if map_of files p \<noteq> None then Inl ENOTDIR else Inl ENOENT),
      fs_stat = (\<lambda>p. case map_of files p of
                        Some (text, t) \<Rightarrow> Inr \<lparr>size = length text, birthtime = Some t, mtime = Some t\<rparr>
                      | None \<Rightarrow> if map_of dirs p \<noteq> None
                                then Inr \<lparr>size = 4096, birthtime = Some 0, mtime = Some 0\<rparr>
                                else Inl ENOENT),
      fs_readFile = (\<lambda>p. case map_of files p of
                            Some (text, t) \<Rightarrow> Inr text
                          | None \<Rightarrow> if map_of dirs p \<noteq> None then Inl EISDIR else Inl ENOENT)\<rparr>"

definition dirEntry :: "string \<Rightarrow> Dirent" where
  "dirEntry n = \<lparr>name = n, isDirectory = True\<rparr>"

definition fileEntry :: "string \<Rightarrow> Dirent" where
  "fileEntry n = \<lparr>name = n, isDirectory = False\<rparr>"

text \<open>
  A stand-in for \<open>JSON.parse\<close> on example lines: \<open>U:text\<close> is a user message, \<open>A:text\<close> an
  assistant message, \<open>X:text\<close> a user message of a sidechain, \<open>S:text\<close> a summary; any
  other line does not parse.  No line carries a timestamp.
\<close>

definition plainEntry :: "string \<Rightarrow> Message option \<Rightarrow> SessionEntry" where
  "plainEntry ty msg =
     \<lparr>e_type = ty, e_sessionId = None, e_summary = None, e_timestamp = None, e_cwd = None,
      e_message = msg, e_uuid = None, e_parentUuid = None, e_isSidechain = None\<rparr>"

definition exampleParse :: "string \<Rightarrow> SessionEntry option" where
  "exampleParse line =
     (case line of
        k # c # rest \<Rightarrow>
          if c \<noteq> CHR '':'' then None
          else if k = CHR ''U'' then Some (plainEntry ''user'' (Some \<lparr>role = ''user'', content = Str rest\<rparr>))
          else if k = CHR ''A'' then
            Some (plainEntry ''assistant'' (Some \<lparr>role = ''assistant'', content = Str rest\<rparr>))
          else if k = CHR ''X'' then
            Some ((plainEntry ''user'' (Some \<lparr>role = ''user'', content = Str rest\<rparr>))
                    \<lparr>e_isSidechain := Some True\<rparr>)
          else if k = CHR ''S'' then Some ((plainEntry ''summary'' None)\<lparr>e_summary := Some rest\<rparr>)
          else None
      | _ \<Rightarrow> None)"

text \<open>
  Lowering and trimming as the runtime does them on ASCII text, which is all the text of
  the examples: \<open>A\<close> to \<open>Z\<close> are lowered, and the white space is the space, the tab, the
  line feed, the vertical tab, the form feed and the carriage return.
\<close>

definition asciiLowerChar :: "char \<Rightarrow> char" where
  "asciiLowerChar c =
     (case map_of (zip ''ABCDEFGHIJKLMNOPQRSTUVWXYZ'' ''abcdefghijklmnopqrstuvwxyz'') c of
        Some d \<Rightarrow> d
      | None \<Rightarrow> c)"

definition asciiLowerCase :: "string \<Rightarrow> string" where
  "asciiLowerCase s = map asciiLowerChar s"

definition asciiSpace :: "char \<Rightarrow> bool" where
  "asciiSpace c = (c \<in> set [CHR '' '', CHR 0x09, CHR 0x0A, CHR 0x0B, CHR 0x0C, CHR 0x0D])"

definition asciiTrim :: "string \<Rightarrow> string" where
  "asciiTrim s = rev (dropWhile asciiSpace (rev (dropWhile asciiSpace s)))"

text \<open>
  The runtime of the examples.  Its sort leaves an array with an inconsistent comparator
  as it is; no example has one.
\<close>

definition exampleJS :: JS where
  "exampleJS =
     \<lparr>json_parse = exampleParse, date_parse = (\<lambda>s. None), date_now = Some 0,
      toLowerCase = asciiLowerCase, trim = asciiTrim, engine_sort = (\<lambda>cmp xs. xs)\<rparr>"

text \<open>Joining lines with a newline.\<close>

definition unlines :: "string list \<Rightarrow> string" where
  "unlines ls = str_join [CHR 0x0A] ls"

text \<open>A corpus of one project with one transcript of two messages, the second long.\<close>

definition longReply :: string where
  "longReply =
     ''0123456789012345678901234567890123456789012345678901234567890123456789'' @
     '' see DIFF '' @
     ''0123456789012345678901234567890123456789012345678901234567890123456789''"

definition oneTranscriptFS :: FS where
  "oneTranscriptFS =
     memFS
       [(''/r'', Some [dirEntry ''p'']),
        (''/r/p'', Some [fileEntry ''a.jsonl''])]
       [(''/r/p/a.jsonl'', unlines [''U:Fix the parser'', ''A:'' @ longReply], 5)]"

definition longReplyHit :: SearchHit where
  "longReplyHit =
     \<lparr>session = \<lparr>s_id = ''a'', projectPath = ''/p'', startTime = Some 5,
                  lastActivityTime = Some 5, messageCount = 2, isActive = False,
                  autoGeneratedName = None\<rparr>,
      message = \<lparr>m_sessionId = ''a'', m_role = ''assistant'', m_content = longReply,
                  m_timestamp = Some 0, m_toolUse = None\<rparr>,
      matchContext =
        ''...'' @ ''567890123456789012345678901234567890123456789'' @
        '' see DIFF '' @ ''0123456789012345678901234567890123456789012345678'' @ ''...''\<rparr>"

text \<open>Two transcripts with the same modification time and no timestamps.\<close>

definition tieFS :: FS where
  "tieFS =
     memFS
       [(''/r'', Some [dirEntry ''p'']),
        (''/r/p'', Some [fileEntry ''a.jsonl'', fileEntry ''b.jsonl''])]
       [(''/r/p/a.jsonl'', unlines [''U:x'', ''A:y''], 5),
        (''/r/p/b.jsonl'', unlines [''U:x'', ''A:y''], 5)]"

text \<open>
  A project whose first session file cannot be read (it is a directory), followed by a
  good one; a corpus whose only project directory cannot be listed; and a corpus root
  that is a file.
\<close>

definition brokenFileFS :: FS where
  "brokenFileFS =
     memFS
       [(''/r'', Some [dirEntry ''p'', dirEntry ''q'']),
        (''/r/p'', Some [dirEntry ''a.jsonl'', fileEntry ''b.jsonl'']),
        (''/r/p/a.jsonl'', Some []),
        (''/r/q'', Some [fileEntry ''c.jsonl''])]
       [(''/r/p/b.jsonl'', unlines [''U:x'', ''A:y''], 5),
        (''/r/q/c.jsonl'', unlines [''U:x'', ''A:y''], 7)]"

definition lockedProjectFS :: FS where
  "lockedProjectFS =
     memFS
       [(''/r'', Some [dirEntry ''p'']),
        (''/r/p'', None)]
       []"

definition rootIsFileFS :: FS where
  "rootIsFileFS = memFS [] [(''/r'', ''x'', 1)]"

text \<open>
  Two projects.  The session \<open>c\<close> of the second is the most recent.  The session \<open>a\<close> of
  the second is listed, but its transcript is looked up by its id and found first in the
  first project, where \<open>a.jsonl\<close> is a directory, so that reading it throws.
\<close>

definition shadowedFS :: FS where
  "shadowedFS =
     memFS
       [(''/r'', Some [dirEntry ''p'', dirEntry ''q'']),
        (''/r/p'', Some [dirEntry ''a.jsonl'']),
        (''/r/p/a.jsonl'', Some []),
        (''/r/q'', Some [fileEntry ''a.jsonl'', fileEntry ''c.jsonl''])]
       [(''/r/q/a.jsonl'', unlines [''U:x'', ''A:y''], 3),
        (''/r/q/c.jsonl'', unlines [''U:x'', ''A:x''], 7)]"

definition sessionC :: ClaudeSession where
  "sessionC =
     \<lparr>s_id = ''c'', projectPath = ''/q'', startTime = Some 7, lastActivityTime = Some 7,
      messageCount = 2, isActive = False, autoGeneratedName = None\<rparr>"

definition sessionA :: ClaudeSession where
  "sessionA =
     \<lparr>s_id = ''a'', projectPath = ''/q'', startTime = Some 3, lastActivityTime = Some 3,
      messageCount = 2, isActive = False, autoGeneratedName = None\<rparr>"

text \<open>
  A transcript whose first user message has an empty text, whose second user message is
  the warmup sentinel, and which has an assistant reply.
\<close>

definition warmupSecondText :: string where
  "warmupSecondText = unlines [''U:'', ''U:Warmup'', ''A:Hello'']"

definition warmupSecondFS :: FS where
  "warmupSecondFS =
     memFS
       [(''/r'', Some [dirEntry ''p'']),
        (''/r/p'', Some [fileEntry ''a.jsonl''])]
       [(''/r/p/a.jsonl'', warmupSecondText, 5)]"

section \<open>Properties of the path codec\<close>

lemma str_split_nonempty [simp]: "str_split c s \<noteq> []"
  by (induction s) (auto split: list.splits)

lemma str_split_Cons [simp]:
  "str_split c (x # xs) =
     (if x = c then [] # str_split c xs
      else (x # hd (str_split c xs)) # tl (str_split c xs))"
  using str_split_nonempty [of c xs] by (cases "str_split c xs") auto

declare str_split.simps(2) [simp del]

lemma find_app:
  "List.find P (xs @ ys) = (case List.find P xs of Some x \<Rightarrow> Some x | None \<Rightarrow> List.find P ys)"
  by (induction xs) auto

lemma truthy_find_existsSync:
  "truthy (List.find (existsSync fs) xs) = (List.find (existsSync fs) xs \<noteq> None)"
proof (cases "List.find (existsSync fs) xs")
  case None
  then show ?thesis by simp
next
  case (Some p)
  then have "existsSync fs p" by (auto simp: find_Some_iff)
  then have "p \<noteq> []" by (simp add: existsSync_def)
  with Some show ?thesis by simp
qed

lemma findValidPath_find:
  "findValidPath fs parts index currentPath =
     List.find (existsSync fs) (candidates parts index currentPath)"
proof (induction fs parts index currentPath rule: findValidPath.induct)
  case (1 fs parts index currentPath)
  show ?case
  proof (cases "index \<ge> length parts")
    case True
    then show ?thesis
      by (simp add: findValidPath.simps [of fs parts index currentPath]
                    candidates.simps [of parts index currentPath])
  next
    case False
    define new where "new = path_join currentPath (parts ! index)"
    define joined where "joined = path_join (path_dirname currentPath)
                     (path_basename currentPath @ ''-'' @ parts ! index)"
    define rn where "rn = findValidPath fs parts (index + 1) new"
    define rj where "rj = findValidPath fs parts (index + 1) joined"
    define cn where "cn = candidates parts (index + 1) new"
    define cj where "cj = candidates parts (index + 1) joined"
    have fv: "findValidPath fs parts index currentPath =
        (if truthy rn then rn else if currentPath \<noteq> ''/'' then (if truthy rj then rj else None)
         else None)"
      using False
      by (subst findValidPath.simps) (simp add: Let_def new_def joined_def rn_def rj_def)
    have cs: "candidates parts index currentPath = cn @ (if currentPath \<noteq> ''/'' then cj else [])"
      using False
      by (subst candidates.simps) (simp add: new_def joined_def cn_def cj_def)
    have rn: "rn = List.find (existsSync fs) cn"
      unfolding rn_def cn_def new_def using "1.IH"(1) False by simp
    have rj: "\<not> truthy rn \<Longrightarrow> currentPath \<noteq> ''/'' \<Longrightarrow> rj = List.find (existsSync fs) cj"
      unfolding rj_def cj_def joined_def rn_def new_def using "1.IH"(2) False by simp
    show ?thesis
    proof (cases "truthy rn")
      case True
      then show ?thesis
        unfolding fv cs using rn
        by (auto simp: find_app truthy_find_existsSync split: option.splits)
    next
      case nt: False
      then have none: "List.find (existsSync fs) cn = None"
        using rn by (simp add: truthy_find_existsSync)
      show ?thesis
      proof (cases "currentPath = ''/''")
        case True
        then show ?thesis
          unfolding fv cs using nt none by (simp add: find_app)
      next
        case ne: False
        have "rj = List.find (existsSync fs) cj" using rj nt ne by simp
        then show ?thesis
          unfolding fv cs using nt ne none
          by (auto simp: find_app truthy_find_existsSync split: option.splits)
      qed
    qed
  qed
qed

lemma decodeProjectPath_find:
  "decodeProjectPath fs encoded =
     (case List.find (existsSync fs) (candidates (encodedParts encoded) 0 ''/'') of
        Some p \<Rightarrow> p
      | None \<Rightarrow> ''/'' @ str_join ''/'' (encodedParts encoded))"
  by (simp add: decodeProjectPath_def Let_def findValidPath_find truthy_find_existsSync
           split: option.splits)

text \<open>
  Claim C8.  \<open>decodeProjectPath\<close> is total: \<open>findValidPath\<close> is a terminating recursion
  (its measure is the number of tokens left), the result is never null nor the empty
  string, and when no interpretation of the tokens exists on the file system the result is
  the naive fallback: a slash followed by the tokens joined by slashes.
\<close>

theorem decodeProjectPath_total:
  "decodeProjectPath fs encoded \<noteq> [] \<and>
   ((\<forall>c \<in> set (candidates (encodedParts encoded) 0 ''/''). \<not> existsSync fs c) \<longrightarrow>
      decodeProjectPath fs encoded = ''/'' @ str_join ''/'' (encodedParts encoded))"
proof (cases "List.find (existsSync fs) (candidates (encodedParts encoded) 0 ''/'')")
  case None
  then show ?thesis by (simp add: decodeProjectPath_find)
next
  case (Some p)
  then have ex: "existsSync fs p" and mem: "p \<in> set (candidates (encodedParts encoded) 0 ''/'')"
    by (auto simp: find_Some_iff)
  from ex have "p \<noteq> []" by (simp add: existsSync_def)
  with Some ex mem show ?thesis by (auto simp: decodeProjectPath_find)
qed

theorem decodeProjectPath_total_witness:
  "candidates (encodedParts ''-a-b'') 0 ''/'' = [''/a/b'', ''/a-b''] \<and>
   \<not> existsSync emptyFS ''/a/b'' \<and> \<not> existsSync emptyFS ''/a-b'' \<and>
   decodeProjectPath emptyFS ''-a-b'' = ''/a/b''"
proof -
  have c: "candidates (encodedParts ''-a-b'') 0 ''/'' = [''/a/b'', ''/a-b'']"
    by code_simp
  have h: "\<forall>c \<in> set (candidates (encodedParts ''-a-b'') 0 ''/''). \<not> existsSync emptyFS c"
    by (simp add: existsSync_def emptyFS_def)
  have e: "''/'' @ str_join ''/'' (encodedParts ''-a-b'') = ''/a/b''"
    by (simp add: encodedParts_def startsWith_def)
  from decodeProjectPath_total [of emptyFS "''-a-b''"] h e c show ?thesis
    by (simp add: existsSync_def emptyFS_def)
qed

lemma until_append:
  "takeWhile (\<lambda>c. \<not> P c) (xs @ ys) @ take 1 (dropWhile (\<lambda>c. \<not> P c) (xs @ ys)) =
     (if List.find P xs = None
      then xs @ takeWhile (\<lambda>c. \<not> P c) ys @ take 1 (dropWhile (\<lambda>c. \<not> P c) ys)
      else takeWhile (\<lambda>c. \<not> P c) xs @ take 1 (dropWhile (\<lambda>c. \<not> P c) xs))"
  by (induction xs) auto

lemma until_none:
  "List.find P xs = None \<Longrightarrow>
     takeWhile (\<lambda>c. \<not> P c) xs @ take 1 (dropWhile (\<lambda>c. \<not> P c) xs) = xs"
  by (induction xs) (auto split: if_splits)

text \<open>
  Claim C3, as amended.  \<open>findValidPath\<close> does not prune on a missing prefix: it asks
  the file system only about complete interpretations (all tokens consumed), in search
  order, and stops at the first one that exists; it never asks about a partial path.
\<close>

theorem findValidPath_probes_complete_only:
  "findValidPath_probes fs parts index currentPath =
     takeWhile (\<lambda>c. \<not> existsSync fs c) (candidates parts index currentPath) @
     take 1 (dropWhile (\<lambda>c. \<not> existsSync fs c) (candidates parts index currentPath))"
proof (induction fs parts index currentPath rule: findValidPath_probes.induct)
  case (1 fs parts index currentPath)
  show ?case
  proof (cases "index \<ge> length parts")
    case True
    then show ?thesis
      by (simp add: findValidPath_probes.simps [of fs parts index currentPath]
                    candidates.simps [of parts index currentPath])
  next
    case False
    define new where "new = path_join currentPath (parts ! index)"
    define joined where "joined = path_join (path_dirname currentPath)
                     (path_basename currentPath @ ''-'' @ parts ! index)"
    define cn where "cn = candidates parts (index + 1) new"
    define cj where "cj = candidates parts (index + 1) joined"
    define pn where "pn = findValidPath_probes fs parts (index + 1) new"
    define pj where "pj = findValidPath_probes fs parts (index + 1) joined"
    have tr: "truthy (findValidPath fs parts (index + 1) new) = (List.find (existsSync fs) cn \<noteq> None)"
      by (simp add: findValidPath_find truthy_find_existsSync cn_def)
    have fv: "findValidPath_probes fs parts index currentPath =
        (if List.find (existsSync fs) cn \<noteq> None then pn
         else if currentPath \<noteq> ''/'' then pn @ pj else pn)"
      using False tr
      by (subst findValidPath_probes.simps) (simp add: Let_def new_def joined_def pn_def pj_def)
    have cs: "candidates parts index currentPath = cn @ (if currentPath \<noteq> ''/'' then cj else [])"
      using False
      by (subst candidates.simps) (simp add: new_def joined_def cn_def cj_def)
    have pn: "pn = takeWhile (\<lambda>c. \<not> existsSync fs c) cn @ take 1 (dropWhile (\<lambda>c. \<not> existsSync fs c) cn)"
      unfolding pn_def cn_def new_def using "1.IH"(1) False by simp
    have pj: "List.find (existsSync fs) cn = None \<Longrightarrow> currentPath \<noteq> ''/'' \<Longrightarrow>
        pj = takeWhile (\<lambda>c. \<not> existsSync fs c) cj @ take 1 (dropWhile (\<lambda>c. \<not> existsSync fs c) cj)"
      unfolding pj_def cj_def joined_def using "1.IH"(2) False tr
      by (simp add: new_def)
    have none: "List.find (existsSync fs) cn = None \<Longrightarrow> pn = cn"
      unfolding pn by (rule until_none)
    show ?thesis
      unfolding fv cs until_append
      using pn pj none by auto
  qed
qed

text \<open>
  The claim as stated fails: with only the root directory on the file system the prefix
  \<open>/a\<close> does not exist, and still all four interpretations below it are built and
  checked.
\<close>

theorem findValidPath_no_pruning_counterexample:
  "\<not> existsSync (fsOfPaths [''/'']) ''/a'' \<and>
   findValidPath_probes (fsOfPaths [''/'']) [''a'', ''b'', ''c''] 0 ''/'' =
     [''/a/b/c'', ''/a/b-c'', ''/a-b/c'', ''/a-b-c'']"
  by code_simp


subsection \<open>Splitting and joining\<close>

lemma str_split_noSep: "c \<notin> set s \<Longrightarrow> str_split c s = [s]"
  by (induction s) auto

lemma str_split_sep: "c \<notin> set a \<Longrightarrow> str_split c (a @ c # b) = a # str_split c b"
  by (induction a) auto

lemma str_split_app: "str_split c (a @ c # b) = str_split c a @ str_split c b"
proof (induction a)
  case Nil
  show ?case by simp
next
  case (Cons x a)
  then show ?case by (cases "str_split c a") auto
qed

lemma str_join_snoc: "xs \<noteq> [] \<Longrightarrow> str_join sep (xs @ [x]) = str_join sep xs @ sep @ x"
  by (induction sep xs rule: str_join.induct) auto

lemma str_join_Cons: "xs \<noteq> [] \<Longrightarrow> str_join sep (x # xs) = x @ sep @ str_join sep xs"
  by (cases xs) auto

lemma str_split_join:
  "xs \<noteq> [] \<Longrightarrow> \<forall>x \<in> set xs. c \<notin> set x \<Longrightarrow> str_split c (str_join [c] xs) = xs"
proof (induction "[c]" xs rule: str_join.induct)
  case 1
  then show ?case by simp
next
  case (2 x)
  then show ?case by (simp add: str_split_noSep)
next
  case (3 x y ys)
  then show ?case by (simp add: str_split_sep)
qed

lemma str_join_split: "str_join [c] (str_split c s) = s"
proof (induction s)
  case Nil
  show ?case by simp
next
  case (Cons x s)
  show ?case
  proof (cases "str_split c s")
    case Nil
    then show ?thesis using str_split_nonempty [of c s] by simp
  next
    case (Cons h t)
    with Cons.IH show ?thesis by (cases t) auto
  qed
qed

lemma set_str_join_noSep:
  "\<forall>x \<in> set xs. d \<notin> set x \<Longrightarrow> d \<notin> set sep \<Longrightarrow> d \<notin> set (str_join sep xs)"
  by (induction sep xs rule: str_join.induct) auto

lemma str_join_nonempty: "xs \<noteq> [] \<Longrightarrow> \<forall>x \<in> set xs. x \<noteq> [] \<Longrightarrow> str_join sep xs \<noteq> []"
  by (induction sep xs rule: str_join.induct) auto

lemma set_str_split: "d \<notin> set s \<Longrightarrow> \<forall>t \<in> set (str_split c s). d \<notin> set t"
proof (induction s)
  case Nil
  show ?case by simp
next
  case (Cons x s)
  then show ?case
    by (cases "str_split c s") (auto split: if_splits)
qed


subsection \<open>Paths in normal form\<close>

lemma normalizeSegments_names:
  "\<forall>s \<in> set segs. segmentName s \<Longrightarrow> normalizeSegments b res segs = res @ segs"
  by (induction segs arbitrary: res) (auto simp: segmentName_def)

lemma segmentName_last: "segmentName x \<Longrightarrow> last x \<noteq> CHR ''/''"
  by (metis last_in_set segmentName_def)

lemma renderPath_snoc:
  "prev \<noteq> [] \<Longrightarrow> renderPath (prev @ [x]) = renderPath prev @ ''/'' @ x"
  by (simp add: renderPath_def str_join_snoc)

lemma renderPath_single: "renderPath [x] = CHR ''/'' # x"
  by (simp add: renderPath_def)

lemma renderPath_Nil: "renderPath [] = ''/''"
  by (simp add: renderPath_def)

lemma path_normalize_render:
  assumes "\<forall>s \<in> set segs. segmentName s" "segs \<noteq> []"
  shows "path_normalize (CHR ''/'' # str_join ''/'' segs) = renderPath segs"
    and "path_normalize (CHR ''/'' # CHR ''/'' # str_join ''/'' segs) = renderPath segs"
proof -
  let ?J = "str_join ''/'' segs"
  have noslash: "\<forall>s \<in> set segs. CHR ''/'' \<notin> set s"
    using assms(1) by (simp add: segmentName_def)
  have ne: "?J \<noteq> []"
    using assms by (intro str_join_nonempty) (auto simp: segmentName_def)
  have sp: "str_split CHR ''/'' ?J = segs"
    using str_split_join [OF assms(2) noslash] .
  have "last segs \<in> set segs" using assms(2) by simp
  then have lseg: "segmentName (last segs)" using assms(1) by blast
  have "?J = str_join ''/'' (butlast segs @ [last segs])" using assms(2) by simp
  then have "last ?J = last (last segs)"
    using lseg by (cases "butlast segs = []") (auto simp: str_join_snoc segmentName_def)
  then have lst: "last ?J \<noteq> CHR ''/''" using segmentName_last [OF lseg] by simp
  show "path_normalize (CHR ''/'' # ?J) = renderPath segs"
    using ne sp lst assms(1)
    by (simp add: path_normalize_def Let_def normalizeSegments_names renderPath_def)
  show "path_normalize (CHR ''/'' # CHR ''/'' # ?J) = renderPath segs"
    using ne sp lst assms(1)
    by (simp add: path_normalize_def Let_def normalizeSegments_names renderPath_def)
qed

lemma path_join_render:
  assumes "\<forall>s \<in> set prev. segmentName s" "segmentName x"
  shows "path_join (renderPath prev) x = renderPath (prev @ [x])"
proof -
  have x: "x \<noteq> []" using assms(2) by (simp add: segmentName_def)
  have all: "\<forall>s \<in> set (prev @ [x]). segmentName s" using assms by simp
  show ?thesis
  proof (cases "prev = []")
    case True
    have "path_join ''/'' x = path_normalize (CHR ''/'' # CHR ''/'' # str_join ''/'' [x])"
      using x by (simp add: path_join_def)
    also have "\<dots> = renderPath [x]"
      using path_normalize_render(2) [of "[x]"] assms(2) by simp
    finally show ?thesis using True by (simp add: renderPath_Nil)
  next
    case False
    have "path_join (renderPath prev) x = path_normalize (CHR ''/'' # str_join ''/'' (prev @ [x]))"
      using x False by (simp add: path_join_def renderPath_def str_join_snoc)
    also have "\<dots> = renderPath (prev @ [x])"
      using path_normalize_render(1) [OF all] by simp
    finally show ?thesis .
  qed
qed

lemma path_basename_render:
  assumes "segmentName x"
  shows "path_basename (renderPath (prev @ [x])) = x"
proof -
  have x: "x \<noteq> []" "CHR ''/'' \<notin> set x" using assms by (simp_all add: segmentName_def)
  obtain pre where p: "renderPath (prev @ [x]) = pre @ CHR ''/'' # x"
    by (cases "prev = []") (auto simp: renderPath_snoc renderPath_single)
  have hd: "hd (rev x) \<noteq> CHR ''/''" using x by (simp add: hd_rev) (metis last_in_set)
  have "dropWhile (\<lambda>c. c = CHR ''/'') (rev x @ CHR ''/'' # rev pre) = rev x @ CHR ''/'' # rev pre"
    using x hd by (cases "rev x") auto
  moreover have "takeWhile (\<lambda>c. c \<noteq> CHR ''/'') (rev x @ CHR ''/'' # rev pre) = rev x"
    using x by (auto simp: takeWhile_tail takeWhile_eq_all_conv)
  ultimately show ?thesis by (simp add: path_basename_def p)
qed

lemma path_dirname_render:
  assumes "\<forall>s \<in> set prev. segmentName s" "segmentName x"
  shows "path_dirname (renderPath (prev @ [x])) = renderPath prev"
proof -
  have x: "x \<noteq> []" "CHR ''/'' \<notin> set x" using assms by (simp_all add: segmentName_def)
  have hd: "hd (rev x) \<noteq> CHR ''/''" using x by (simp add: hd_rev) (metis last_in_set)
  have dw: "dropWhile (\<lambda>c. c = CHR ''/'') (rev x @ ys) = rev x @ ys" for ys
    using x hd by (cases "rev x") auto
  show ?thesis
  proof (cases "prev = []")
    case True
    have "dropWhile (\<lambda>c. c \<noteq> CHR ''/'') (rev x) = []" using x by auto
    then show ?thesis
      using True dw [of "[]"] by (simp add: path_dirname_def renderPath_def Let_def)
  next
    case False
    let ?J = "str_join ''/'' prev"
    have ne: "?J \<noteq> []"
      using assms(1) False by (intro str_join_nonempty) (auto simp: segmentName_def)
    have p: "renderPath (prev @ [x]) = CHR ''/'' # ?J @ CHR ''/'' # x"
      using False by (simp add: renderPath_def str_join_snoc)
    have "dropWhile (\<lambda>c. c \<noteq> CHR ''/'') (rev x @ CHR ''/'' # rev ?J) = CHR ''/'' # rev ?J"
      using x by (subst dropWhile_append2) auto
    then have "path_dirname (CHR ''/'' # ?J @ CHR ''/'' # x) = CHR ''/'' # ?J"
      using ne dw [of "CHR ''/'' # rev ?J"]
      by (simp add: path_dirname_def Let_def)
    then show ?thesis
      unfolding p by (simp add: renderPath_def)
  qed
qed

lemma renderPath_not_root: "segmentName x \<Longrightarrow> renderPath (prev @ [x]) \<noteq> ''/''"
proof (cases "prev = []")
  case True
  assume "segmentName x"
  then show ?thesis using True by (simp add: renderPath_single segmentName_def)
next
  case False
  have "renderPath (prev @ [x]) = CHR ''/'' # str_join ''/'' prev @ CHR ''/'' # x"
    using False by (simp add: renderPath_def str_join_snoc)
  then show ?thesis by simp
qed


subsection \<open>The path is among the interpretations of its own encoding\<close>

lemma candidates_drop: "candidates parts index currentPath = candidates_from (drop index parts) currentPath"
proof (induction parts index currentPath rule: candidates.induct)
  case (1 parts index currentPath)
  show ?case
  proof (cases "index \<ge> length parts")
    case True
    then show ?thesis by (subst candidates.simps) simp
  next
    case False
    then have d: "drop index parts = parts ! index # drop (Suc index) parts"
      by (simp add: Cons_nth_drop_Suc)
    show ?thesis
      using False "1.IH" by (subst candidates.simps) (simp add: d)
  qed
qed

lemma foldl_dash_append:
  "foldl (\<lambda>a t. a @ ''-'' @ t) (a @ b) ts = a @ foldl (\<lambda>a t. a @ ''-'' @ t) b ts"
  by (induction ts arbitrary: b) simp_all

lemma str_join_dash_foldl: "str_join ''-'' (t # ts) = foldl (\<lambda>a t. a @ ''-'' @ t) t ts"
proof (induction ts arbitrary: t)
  case Nil
  show ?case by simp
next
  case (Cons u ts)
  have "foldl (\<lambda>a t. a @ ''-'' @ t) (t @ ''-'' @ u) ts = t @ ''-'' @ foldl (\<lambda>a t. a @ ''-'' @ t) u ts"
    using foldl_dash_append [of "t @ ''-''" u ts] by simp
  with Cons show ?case by simp
qed

lemma segmentName_dash:
  assumes "segmentName x" "CHR ''/'' \<notin> set t"
  shows "segmentName (x @ ''-'' @ t)"
proof -
  have "CHR ''-'' \<in> set (x @ ''-'' @ t)" by simp
  moreover have "CHR ''-'' \<notin> set ''.''" "CHR ''-'' \<notin> set ''..''" by simp_all
  ultimately have "x @ ''-'' @ t \<noteq> ''.''" "x @ ''-'' @ t \<noteq> ''..''" by metis+
  then show ?thesis using assms by (simp add: segmentName_def)
qed

lemma segmentName_foldl:
  "segmentName x \<Longrightarrow> \<forall>t \<in> set ts. CHR ''/'' \<notin> set t \<Longrightarrow>
     segmentName (foldl (\<lambda>a t. a @ ''-'' @ t) x ts)"
proof (induction ts arbitrary: x)
  case Nil
  then show ?case by simp
next
  case (Cons t ts)
  then show ?case using segmentName_dash [of x t] by simp
qed

lemma walk_segment:
  assumes "\<forall>s \<in> set prev. segmentName s"
  shows "segmentName x \<Longrightarrow> \<forall>t \<in> set ts. CHR ''/'' \<notin> set t \<Longrightarrow>
     q \<in> set (candidates_from rest (renderPath (prev @ [foldl (\<lambda>a t. a @ ''-'' @ t) x ts]))) \<Longrightarrow>
     q \<in> set (candidates_from (ts @ rest) (renderPath (prev @ [x])))"
proof (induction ts arbitrary: x)
  case Nil
  then show ?case by simp
next
  case (Cons t ts)
  have sn: "segmentName (x @ ''-'' @ t)" using Cons.prems segmentName_dash [of x t] by simp
  have "q \<in> set (candidates_from (ts @ rest) (renderPath (prev @ [x @ ''-'' @ t])))"
    using Cons.IH [OF sn] Cons.prems by simp
  moreover have "path_join (path_dirname (renderPath (prev @ [x])))
                   (path_basename (renderPath (prev @ [x])) @ ''-'' @ t) =
                 renderPath (prev @ [x @ ''-'' @ t])"
    using path_dirname_render [OF assms Cons.prems(1)] path_basename_render [OF Cons.prems(1)]
          path_join_render [OF assms sn] by simp
  ultimately show ?case
    using renderPath_not_root [OF Cons.prems(1), of prev] by simp
qed

lemma recoverable_split:
  assumes "recoverableSegment s"
  shows "segmentName (hd (str_split CHR ''-'' s))"
    and "\<forall>t \<in> set (tl (str_split CHR ''-'' s)). CHR ''/'' \<notin> set t"
    and "s = foldl (\<lambda>a t. a @ ''-'' @ t) (hd (str_split CHR ''-'' s)) (tl (str_split CHR ''-'' s))"
    and "segmentName s"
proof -
  show h: "segmentName (hd (str_split CHR ''-'' s))"
    using assms by (simp add: recoverableSegment_def)
  have "\<forall>t \<in> set (str_split CHR ''-'' s). CHR ''/'' \<notin> set t"
    using assms by (intro set_str_split) (simp add: recoverableSegment_def)
  then show t: "\<forall>t \<in> set (tl (str_split CHR ''-'' s)). CHR ''/'' \<notin> set t"
    by (metis list.set_sel(2) str_split_nonempty)
  have "s = str_join ''-'' (str_split CHR ''-'' s)" by (simp add: str_join_split)
  also have "\<dots> = str_join ''-'' (hd (str_split CHR ''-'' s) # tl (str_split CHR ''-'' s))"
    by simp
  finally show f: "s = foldl (\<lambda>a t. a @ ''-'' @ t) (hd (str_split CHR ''-'' s)) (tl (str_split CHR ''-'' s))"
    unfolding str_join_dash_foldl .
  show "segmentName s"
    using segmentName_foldl [OF h t] f by simp
qed

lemma render_in_candidates_from:
  "\<forall>s \<in> set prev. segmentName s \<Longrightarrow> \<forall>s \<in> set segs. recoverableSegment s \<Longrightarrow>
     renderPath (prev @ segs) \<in>
       set (candidates_from (concat (map (str_split CHR ''-'') segs)) (renderPath prev))"
proof (induction segs arbitrary: prev)
  case Nil
  then show ?case by simp
next
  case (Cons s segs)
  let ?toks = "str_split CHR ''-'' s"
  let ?rest = "concat (map (str_split CHR ''-'') segs)"
  have rs: "recoverableSegment s" using Cons.prems by simp
  note sp = recoverable_split [OF rs]
  have prev': "\<forall>u \<in> set (prev @ [s]). segmentName u" using Cons.prems(1) sp(4) by simp
  have "renderPath ((prev @ [s]) @ segs) \<in> set (candidates_from ?rest (renderPath (prev @ [s])))"
    using Cons.IH [OF prev'] Cons.prems(2) by simp
  then have "renderPath (prev @ s # segs) \<in>
      set (candidates_from ?rest (renderPath (prev @ [foldl (\<lambda>a t. a @ ''-'' @ t) (hd ?toks) (tl ?toks)])))"
    using sp(3) by simp
  then have "renderPath (prev @ s # segs) \<in>
      set (candidates_from (tl ?toks @ ?rest) (renderPath (prev @ [hd ?toks])))"
    using walk_segment [OF Cons.prems(1) sp(1) sp(2)] by blast
  then have "renderPath (prev @ s # segs) \<in>
      set (candidates_from (hd ?toks # tl ?toks @ ?rest) (renderPath prev))"
    using path_join_render [OF Cons.prems(1) sp(1)] by simp
  moreover have "hd ?toks # tl ?toks @ ?rest = concat (map (str_split CHR ''-'') (s # segs))"
    by simp
  ultimately show ?case by simp
qed

lemma map_slash_id:
  "CHR ''/'' \<notin> set x \<Longrightarrow> map (\<lambda>c. if c = CHR ''/'' then CHR ''-'' else c) x = x"
  by (induction x) auto

lemma encodeProjectPath_render:
  assumes "\<forall>s \<in> set segs. CHR ''/'' \<notin> set s"
  shows "encodeProjectPath (renderPath segs) = CHR ''-'' # str_join ''-'' segs"
proof -
  have "map (\<lambda>c. if c = CHR ''/'' then CHR ''-'' else c) (str_join ''/'' segs) = str_join ''-'' segs"
    using assms
  proof (induction "''/''" segs rule: str_join.induct)
    case 1
    show ?case by simp
  next
    case (2 x)
    then show ?case by (simp add: map_slash_id)
  next
    case (3 x y ys)
    then have "map (\<lambda>c. if c = CHR ''/'' then CHR ''-'' else c) x = x" by (simp add: map_slash_id)
    with 3 show ?case by simp
  qed
  then show ?thesis by (simp add: encodeProjectPath_def renderPath_def)
qed

lemma str_split_join_concat:
  "segs \<noteq> [] \<Longrightarrow> str_split c (str_join [c] segs) = concat (map (str_split c) segs)"
proof (induction "[c]" segs rule: str_join.induct)
  case 1
  then show ?case by simp
next
  case (2 x)
  show ?case by simp
next
  case (3 x y ys)
  then show ?case by (simp add: str_split_app)
qed

lemma render_in_candidates:
  assumes "\<forall>s \<in> set segs. recoverableSegment s"
  shows "renderPath segs \<in> set (candidates (encodedParts (encodeProjectPath (renderPath segs))) 0 ''/'')"
proof (cases "segs = []")
  case True
  have "candidates (encodedParts (encodeProjectPath (renderPath []))) 0 ''/'' = [''/'']"
    by code_simp
  then show ?thesis using True by (simp add: renderPath_Nil)
next
  case False
  have ns: "\<forall>s \<in> set segs. CHR ''/'' \<notin> set s"
    using assms by (simp add: recoverableSegment_def)
  have "encodedParts (encodeProjectPath (renderPath segs)) = concat (map (str_split CHR ''-'') segs)"
    using False by (simp add: encodeProjectPath_render [OF ns] encodedParts_def startsWith_def
                              str_split_join_concat)
  then show ?thesis
    using render_in_candidates_from [of "[]" segs] assms
    by (simp add: candidates_drop renderPath_Nil)
qed

lemma find_first:
  "p \<in> set xs \<Longrightarrow> P p \<Longrightarrow> \<forall>c \<in> set (takeWhile (\<lambda>c. c \<noteq> p) xs). \<not> P c \<Longrightarrow>
     List.find P xs = Some p"
  by (induction xs) (auto split: if_splits)

text \<open>
  Claim C1, as amended.  Let \<open>p\<close> be an absolute path in normal form whose segments
  have no slash and whose first dash-separated token is a directory name (not empty,
  not \<open>.\<close>, not \<open>..\<close>).  If \<open>p\<close> exists and no interpretation of its encoding that the
  search reaches before \<open>p\<close> exists, then decoding the encoding of \<open>p\<close> gives \<open>p\<close>.
\<close>

theorem decode_encode_first_existing:
  assumes "\<forall>s \<in> set segs. recoverableSegment s"
    and "existsSync fs (renderPath segs)"
    and "\<forall>c \<in> set (takeWhile (\<lambda>c. c \<noteq> renderPath segs)
             (candidates (encodedParts (encodeProjectPath (renderPath segs))) 0 ''/'')).
           \<not> existsSync fs c"
  shows "decodeProjectPath fs (encodeProjectPath (renderPath segs)) = renderPath segs"
proof -
  have "List.find (existsSync fs)
          (candidates (encodedParts (encodeProjectPath (renderPath segs))) 0 ''/'') =
        Some (renderPath segs)"
    using render_in_candidates [OF assms(1)] assms(2,3) by (rule find_first)
  then show ?thesis by (simp add: decodeProjectPath_find)
qed


theorem decode_encode_first_existing_witness:
  "recoverableSegment ''x'' \<and> recoverableSegment ''a-b'' \<and>
   existsSync (fsOfPaths [''/'', ''/x'', ''/x/a-b'', ''/x-a-b'']) (renderPath [''x'', ''a-b'']) \<and>
   takeWhile (\<lambda>c. c \<noteq> renderPath [''x'', ''a-b''])
     (candidates (encodedParts (encodeProjectPath (renderPath [''x'', ''a-b''])))  0 ''/'') = [''/x/a/b''] \<and>
   \<not> existsSync (fsOfPaths [''/'', ''/x'', ''/x/a-b'', ''/x-a-b'']) ''/x/a/b'' \<and>
   decodeProjectPath (fsOfPaths [''/'', ''/x'', ''/x/a-b'', ''/x-a-b''])
     (encodeProjectPath ''/x/a-b'') = ''/x/a-b''"
proof -
  let ?fs = "fsOfPaths [''/'', ''/x'', ''/x/a-b'', ''/x-a-b'']"
  have r: "renderPath [''x'', ''a-b''] = ''/x/a-b''" by (simp add: renderPath_def)
  have s: "recoverableSegment ''x''" "recoverableSegment ''a-b''" by code_simp+
  then have h1: "\<forall>s \<in> set [''x'', ''a-b'']. recoverableSegment s" by simp
  have h2: "existsSync ?fs (renderPath [''x'', ''a-b''])" by code_simp
  have t: "takeWhile (\<lambda>c. c \<noteq> renderPath [''x'', ''a-b''])
     (candidates (encodedParts (encodeProjectPath (renderPath [''x'', ''a-b''])))  0 ''/'') = [''/x/a/b'']"
    by code_simp
  have n: "\<not> existsSync ?fs ''/x/a/b''" by code_simp
  have h3: "\<forall>c \<in> set (takeWhile (\<lambda>c. c \<noteq> renderPath [''x'', ''a-b''])
             (candidates (encodedParts (encodeProjectPath (renderPath [''x'', ''a-b''])))  0 ''/'')).
           \<not> existsSync ?fs c"
    unfolding t using n by simp
  from decode_encode_first_existing [OF h1 h2 h3] s h2 t n show ?thesis
    unfolding r by simp
qed

text \<open>
  The claim as stated fails.  When \<open>/a-b\<close> and \<open>/a/b\<close> both exist, the encoding of \<open>/a-b\<close>
  decodes to \<open>/a/b\<close>: the new-segment hypothesis is tried first.  A segment that starts
  with a dash is never rebuilt: with only \<open>/-a\<close> on the file system, its encoding
  decodes to the fallback \<open>//a\<close>.
\<close>

theorem decode_encode_counterexample:
  "existsSync (fsOfPaths [''/'', ''/a'', ''/a/b'', ''/a-b'']) ''/a-b'' \<and>
   decodeProjectPath (fsOfPaths [''/'', ''/a'', ''/a/b'', ''/a-b'']) (encodeProjectPath ''/a-b'') = ''/a/b'' \<and>
   existsSync (fsOfPaths [''/'', ''/-a'']) ''/-a'' \<and>
   decodeProjectPath (fsOfPaths [''/'', ''/-a'']) (encodeProjectPath ''/-a'') = ''//a''"
  by code_simp

section \<open>Properties of the namer\<close>

lemma anyKeyword_list_ex: "anyKeyword l kws = list_ex (str_includes l) kws"
  by (induction kws) auto

lemma firstProject_find:
  "firstProject l tbl =
     (case List.find (\<lambda>(keyword, project). str_includes l keyword) tbl of
        Some (keyword, project) \<Rightarrow> Some project
      | None \<Rightarrow> None)"
  by (induction l tbl rule: firstProject.induct) auto

lemma hd_str_split: "hd (str_split c s) = takeWhile (\<lambda>x. x \<noteq> c) s"
  by (induction s) auto

lemma length_str_split: "(length (str_split c s) \<ge> 2) = (c \<in> set s)"
proof (induction s)
  case Nil
  show ?case by simp
next
  case (Cons x s)
  obtain h t where "str_split c s = h # t"
    using str_split_nonempty [of c s] by (cases "str_split c s") auto
  with Cons show ?case by auto
qed

lemma length_takeWhile_less: "(length (takeWhile (\<lambda>x. x \<noteq> c) s) < length s) = (c \<in> set s)"
  by (induction s) auto

lemma colonMatch_pieces:
  "colonMatch s =
     (if length (str_split CHR '':'' s) \<ge> 2 \<and> hd (str_split CHR '':'' s) \<noteq> []
      then Some (hd (str_split CHR '':'' s)) else None)"
  by (auto simp: colonMatch_def Let_def hd_str_split length_str_split length_takeWhile_less)

text \<open>
  Claim C5, as amended.  \<open>extractTaskFocus\<close> computes the classification by ordered
  passes over the lowercased summary: no summary (or an empty one) gives \<open>Session\<close>; then
  the self-improvement keywords, the management keywords, the project table in its order;
  then the text before the first colon, trimmed, when the trimmed text has 3 to 30
  characters; then \<open>Session\<close>.  No summary gives \<open>Session\<close>, and when the runtime lowers
  the two example summaries as ASCII text they give \<open>Global\<close> and \<open>corpus-search\<close>.
\<close>

theorem extractTaskFocus_passes:
  "extractTaskFocus js summary = classify_trimmed js summary \<and>
   extractTaskFocus js None = ''Session'' \<and>
   (toLowerCase js ''Quick cleanup of session backlog'' = ''quick cleanup of session backlog'' \<longrightarrow>
      extractTaskFocus js (Some ''Quick cleanup of session backlog'') = ''Global'') \<and>
   (toLowerCase js ''Debugging corpus search ranking'' = ''debugging corpus search ranking'' \<longrightarrow>
      extractTaskFocus js (Some ''Debugging corpus search ranking'') = ''corpus-search'')"
proof -
  have general: "extractTaskFocus js summary = classify_trimmed js summary"
  proof (cases summary)
    case None
    then show ?thesis by (simp add: extractTaskFocus_def classify_trimmed_def)
  next
    case (Some s)
    show ?thesis
    proof (cases "s = []")
      case True
      then show ?thesis using Some by (simp add: extractTaskFocus_def classify_trimmed_def)
    next
      case False
      then show ?thesis
        using Some
        by (auto simp: extractTaskFocus_def classify_trimmed_def Let_def anyKeyword_list_ex
                       firstProject_find colonMatch_pieces
                 split: option.splits)
    qed
  qed
  have e1: "extractTaskFocus js None = ''Session''" by (simp add: extractTaskFocus_def)
  have g: "anyKeyword ''quick cleanup of session backlog'' selfImprovementKeywords = False"
    "anyKeyword ''quick cleanup of session backlog'' globalKeywords = True"
    by code_simp+
  have c: "anyKeyword ''debugging corpus search ranking'' selfImprovementKeywords = False"
    "anyKeyword ''debugging corpus search ranking'' globalKeywords = False"
    "firstProject ''debugging corpus search ranking'' knownProjects = Some ''corpus-search''"
    by code_simp+
  have e2: "toLowerCase js ''Quick cleanup of session backlog'' = ''quick cleanup of session backlog'' \<longrightarrow>
      extractTaskFocus js (Some ''Quick cleanup of session backlog'') = ''Global''"
    using g by (simp add: extractTaskFocus_def)
  have e3: "toLowerCase js ''Debugging corpus search ranking'' = ''debugging corpus search ranking'' \<longrightarrow>
      extractTaskFocus js (Some ''Debugging corpus search ranking'') = ''corpus-search''"
    using c by (simp add: extractTaskFocus_def)
  from general e1 e2 e3 show ?thesis by blast
qed

theorem extractTaskFocus_passes_witness:
  "toLowerCase exampleJS ''Quick cleanup of session backlog'' = ''quick cleanup of session backlog'' \<and>
   toLowerCase exampleJS ''Debugging corpus search ranking'' = ''debugging corpus search ranking'' \<and>
   extractTaskFocus exampleJS (Some ''Quick cleanup of session backlog'') = ''Global'' \<and>
   extractTaskFocus exampleJS (Some ''Debugging corpus search ranking'') = ''corpus-search'' \<and>
   extractTaskFocus exampleJS (Some ''Refactor the VSCode Extension'') = ''claude-session-manager'' \<and>
   extractTaskFocus exampleJS (Some '' Fix parser : details'') =
     classify_trimmed exampleJS (Some '' Fix parser : details'')"
proof -
  have l1: "toLowerCase exampleJS ''Quick cleanup of session backlog'' = ''quick cleanup of session backlog''"
    by code_simp
  have l2: "toLowerCase exampleJS ''Debugging corpus search ranking'' = ''debugging corpus search ranking''"
    by code_simp
  have l3: "extractTaskFocus exampleJS (Some ''Refactor the VSCode Extension'') = ''claude-session-manager''"
    by code_simp
  from extractTaskFocus_passes [of exampleJS "Some '' Fix parser : details''"] l1 l2 l3
  show ?thesis by blast
qed

text \<open>
  The claim as stated fails: the phrase before the colon is not used verbatim and its
  length is not what is tested.  The prefix of six characters of the first summary has a
  trimmed text of two characters, so the category is \<open>Session\<close> and not the prefix; the
  prefix of the second summary is returned without the spaces around it.
\<close>

theorem extractTaskFocus_verbatim_counterexample:
  "extractTaskFocus exampleJS (Some ''  ab  : x'') = ''Session'' \<and>
   classify_spec exampleJS (Some ''  ab  : x'') = ''  ab  '' \<and>
   extractTaskFocus exampleJS (Some '' Fix parser : details'') = ''Fix parser'' \<and>
   classify_spec exampleJS (Some '' Fix parser : details'') = '' Fix parser ''"
  by code_simp

section \<open>Properties of the session indexer\<close>

subsection \<open>The exclusion rules\<close>

lemma foldl_processLine:
  "foldl (processLine js) st lines =
     foldl (processEntry js) st (List.map_filter (json_parse js) lines)"
proof (induction lines arbitrary: st)
  case Nil
  show ?case by (simp add: List.map_filter_simps)
next
  case (Cons l lines)
  have step: "processLine js st l =
      (case json_parse js l of None \<Rightarrow> st | Some entry \<Rightarrow> processEntry js st entry)"
    by (simp add: processLine_def)
  show ?case
    by (cases "json_parse js l") (simp_all add: Cons.IH step List.map_filter_simps)
qed

lemma markSidechain_fields:
  "p_isSidechain (markSidechain e st) = (p_isSidechain st \<or> isSidechainEntry e)"
  "p_hasRealContent (markSidechain e st) = p_hasRealContent st"
  "p_messageCount (markSidechain e st) = p_messageCount st"
  "p_firstUserMessage (markSidechain e st) = p_firstUserMessage st"
  by (simp_all add: markSidechain_def isSidechainEntry_def)

lemma takeSummary_fields:
  "p_isSidechain (takeSummary e st) = p_isSidechain st"
  "p_hasRealContent (takeSummary e st) = p_hasRealContent st"
  "p_messageCount (takeSummary e st) = p_messageCount st"
  "p_firstUserMessage (takeSummary e st) = p_firstUserMessage st"
  by (simp_all add: takeSummary_def)

lemma trackTimestamps_fields:
  "p_isSidechain (trackTimestamps js e st) = p_isSidechain st"
  "p_hasRealContent (trackTimestamps js e st) = p_hasRealContent st"
  "p_messageCount (trackTimestamps js e st) = p_messageCount st"
  "p_firstUserMessage (trackTimestamps js e st) = p_firstUserMessage st"
  by (simp_all add: trackTimestamps_def Let_def)

lemma takeCwd_fields:
  "p_isSidechain (takeCwd e st) = p_isSidechain st"
  "p_hasRealContent (takeCwd e st) = p_hasRealContent st"
  "p_messageCount (takeCwd e st) = p_messageCount st"
  "p_firstUserMessage (takeCwd e st) = p_firstUserMessage st"
  by (simp_all add: takeCwd_def)

lemma countMessage_result:
  "\<exists>st'. (countMessage js e s = Inl st' \<or> countMessage js e s = Inr st') \<and>
     p_isSidechain st' = p_isSidechain s \<and>
     p_hasRealContent st' = (p_hasRealContent s \<or> e_type e = ''assistant'') \<and>
     p_messageCount st' = p_messageCount s + (if isMessageEntry e then 1 else 0) \<and>
     p_firstUserMessage st' =
       (if isUserMessage e \<and> \<not> truthy (p_firstUserMessage s) \<and> userText js e \<noteq> None
        then userText js e else p_firstUserMessage s)"
proof (cases "e_type e = ''user'' \<or> e_type e = ''assistant''")
  case False
  then show ?thesis
    by (intro exI [of _ s]) (auto simp: countMessage_def isMessageEntry_def isUserMessage_def)
next
  case msg: True
  let ?counted = "s\<lparr>p_messageCount := p_messageCount s + 1\<rparr>"
  show ?thesis
  proof (cases "e_type e = ''user'' \<and> \<not> truthy (p_firstUserMessage s) \<and> e_message e \<noteq> None")
    case False
    let ?st = "if e_type e = ''assistant'' then ?counted\<lparr>p_hasRealContent := True\<rparr> else ?counted"
    have "countMessage js e s = Inr ?st"
      using msg False by (auto simp: countMessage_def Let_def)
    then show ?thesis
      using msg False
      by (intro exI [of _ ?st]) (auto simp: isMessageEntry_def isUserMessage_def)
  next
    case first: True
    show ?thesis
    proof (cases "messageText (the (e_message e))")
      case None
      have "countMessage js e s = Inl ?counted"
        using msg first None by (auto simp: countMessage_def Let_def)
      then show ?thesis
        using msg first None
        by (intro exI [of _ ?counted])
           (auto simp: isMessageEntry_def isUserMessage_def userText_def)
    next
      case (Some t)
      let ?st = "?counted\<lparr>p_firstUserMessage := Some (trim js t)\<rparr>"
      have "countMessage js e s = Inr ?st"
        using msg first Some by (auto simp: countMessage_def Let_def)
      then show ?thesis
        using msg first Some
        by (intro exI [of _ ?st])
           (auto simp: isMessageEntry_def isUserMessage_def userText_def)
    qed
  qed
qed

lemma processEntry_fields:
  "p_isSidechain (processEntry js st e) = (p_isSidechain st \<or> isSidechainEntry e)"
  "p_hasRealContent (processEntry js st e) = (p_hasRealContent st \<or> e_type e = ''assistant'')"
  "p_messageCount (processEntry js st e) =
     p_messageCount st + (if isMessageEntry e then 1 else 0)"
  "p_firstUserMessage (processEntry js st e) =
     (if isUserMessage e \<and> \<not> truthy (p_firstUserMessage st) \<and> userText js e \<noteq> None
      then userText js e else p_firstUserMessage st)"
proof -
  let ?s = "trackTimestamps js e (takeSummary e (markSidechain e st))"
  obtain st' where r: "countMessage js e ?s = Inl st' \<or> countMessage js e ?s = Inr st'"
    and f: "p_isSidechain st' = p_isSidechain ?s"
      "p_hasRealContent st' = (p_hasRealContent ?s \<or> e_type e = ''assistant'')"
      "p_messageCount st' = p_messageCount ?s + (if isMessageEntry e then 1 else 0)"
      "p_firstUserMessage st' =
         (if isUserMessage e \<and> \<not> truthy (p_firstUserMessage ?s) \<and> userText js e \<noteq> None
          then userText js e else p_firstUserMessage ?s)"
    using countMessage_result [of js e ?s] by blast
  have p: "processEntry js st e = st' \<or> processEntry js st e = takeCwd e st'"
    using r by (auto simp: processEntry_def)
  note flds = markSidechain_fields takeSummary_fields trackTimestamps_fields takeCwd_fields
  show "p_isSidechain (processEntry js st e) = (p_isSidechain st \<or> isSidechainEntry e)"
    using p f(1) by (auto simp: flds)
  show "p_hasRealContent (processEntry js st e) = (p_hasRealContent st \<or> e_type e = ''assistant'')"
    using p f(2) by (auto simp: flds)
  show "p_messageCount (processEntry js st e) =
     p_messageCount st + (if isMessageEntry e then 1 else 0)"
    using p f(3) by (auto simp: flds)
  show "p_firstUserMessage (processEntry js st e) =
     (if isUserMessage e \<and> \<not> truthy (p_firstUserMessage st) \<and> userText js e \<noteq> None
      then userText js e else p_firstUserMessage st)"
    using p f(4) by (auto simp: flds)
qed

lemma fold_isSidechain:
  "p_isSidechain (foldl (processEntry js) st es) = (p_isSidechain st \<or> list_ex isSidechainEntry es)"
  by (induction es arbitrary: st) (auto simp: processEntry_fields)

lemma fold_hasRealContent:
  "p_hasRealContent (foldl (processEntry js) st es) =
     (p_hasRealContent st \<or> list_ex (\<lambda>e. e_type e = ''assistant'') es)"
  by (induction es arbitrary: st) (auto simp: processEntry_fields)

lemma fold_messageCount:
  "p_messageCount (foldl (processEntry js) st es) =
     p_messageCount st + length (filter isMessageEntry es)"
  by (induction es arbitrary: st) (auto simp: processEntry_fields)

lemma fold_firstUserMessage_set:
  "truthy (p_firstUserMessage st) \<Longrightarrow>
     p_firstUserMessage (foldl (processEntry js) st es) = p_firstUserMessage st"
  by (induction es arbitrary: st) (auto simp: processEntry_fields)

lemma fold_warmup:
  "\<not> truthy (p_firstUserMessage st) \<Longrightarrow>
     (p_firstUserMessage (foldl (processEntry js) st es) = Some ''Warmup'') =
     (firstNonEmptyUserText js es = Some ''Warmup'')"
proof (induction es arbitrary: st)
  case Nil
  then show ?case by (cases "p_firstUserMessage st") (auto simp: firstNonEmptyUserText_def)
next
  case (Cons e es)
  show ?case
  proof (cases "isUserMessage e \<and> truthy (userText js e)")
    case True
    then have ne: "userText js e \<noteq> None" by (cases "userText js e") auto
    have set: "p_firstUserMessage (processEntry js st e) = userText js e"
      using True ne Cons.prems by (simp add: processEntry_fields)
    then have "truthy (p_firstUserMessage (processEntry js st e))" using True by simp
    then show ?thesis
      using True set fold_firstUserMessage_set [of "processEntry js st e" js es]
      by (simp add: firstNonEmptyUserText_def)
  next
    case False
    then have "\<not> truthy (p_firstUserMessage (processEntry js st e))"
      using Cons.prems by (auto simp: processEntry_fields)
    then show ?thesis
      using False Cons.IH [of "processEntry js st e"] by (auto simp: firstNonEmptyUserText_def)
  qed
qed

lemma parseSessionFile_null_iff:
  assumes "fs_stat fs filePath = Inr stats" "fs_readFile fs filePath = Inr text"
  shows "(parseSessionFile js fs filePath sessionId projPath = Inr None) =
     (size stats = 0 \<or> fileLines js text = [] \<or>
      firstNonEmptyUserText js (parsedEntries js text) = Some ''Warmup'' \<or>
      list_ex isSidechainEntry (parsedEntries js text) \<or>
      (\<not> list_ex (\<lambda>e. e_type e = ''assistant'') (parsedEntries js text) \<and>
       length (filter isMessageEntry (parsedEntries js text)) < 2))"
proof -
  have init: "\<not> truthy (p_firstUserMessage initialState)" "\<not> p_isSidechain initialState"
    "\<not> p_hasRealContent initialState" "p_messageCount initialState = 0"
    by (simp_all add: initialState_def)
  show ?thesis
    using assms init fold_warmup [OF init(1), of js "parsedEntries js text"]
    by (auto simp: parseSessionFile_def Let_def foldl_processLine parsedEntries_def [symmetric]
                   fold_isSidechain fold_hasRealContent fold_messageCount)
qed

lemma firstUserMessageText_warmup:
  "firstUserMessageText js es = Some ''Warmup'' \<Longrightarrow> firstNonEmptyUserText js es = Some ''Warmup''"
proof (induction es)
  case Nil
  then show ?case by (simp add: firstUserMessageText_def)
next
  case (Cons e es)
  then show ?case
    by (cases "isUserMessage e")
       (auto simp: firstUserMessageText_def firstNonEmptyUserText_def)
qed

lemma exclusionRules_sufficient:
  assumes "fs_stat fs filePath = Inr stats" "fs_readFile fs filePath = Inr text"
    and "exclusionRules js (size stats) text"
  shows "parseSessionFile js fs filePath sessionId projPath = Inr None"
  using assms(3) firstUserMessageText_warmup [of js "parsedEntries js text"]
  unfolding parseSessionFile_null_iff [OF assms(1,2)] exclusionRules_def Let_def by blast

text \<open>
  Claim C2 at a transcript whose first user message has an empty text and whose second
  user message is the warmup sentinel.  None of the five rules fires (the file is not
  empty, the text of the first user message is empty and not the sentinel, no entry is a
  sidechain entry, there is an assistant message), and still \<open>parseSessionFile\<close> returns
  \<open>null\<close>: the test \<open>!firstUserMessage\<close> takes the empty text for "not yet set", so the
  second message overwrites it.  (The rules are sufficient, \<open>exclusionRules_sufficient\<close>;
  with "the first user message whose trimmed text is not empty" in rule 3 they are exact,
  \<open>parseSessionFile_null_iff\<close>.)
\<close>

theorem parseSessionFile_warmup_after_empty:
  "fs_stat warmupSecondFS ''/r/p/a.jsonl'' = Inr \<lparr>size = 19, birthtime = Some 5, mtime = Some 5\<rparr> \<and>
   fs_readFile warmupSecondFS ''/r/p/a.jsonl'' = Inr warmupSecondText \<and>
   firstUserMessageText exampleJS (parsedEntries exampleJS warmupSecondText) = Some [] \<and>
   \<not> exclusionRules exampleJS 19 warmupSecondText \<and>
   parseSessionFile exampleJS warmupSecondFS ''/r/p/a.jsonl'' ''a'' ''/p'' = Inr None"
  by code_simp

subsection \<open>The walk over the corpus\<close>

lemma scanFiles_fileSessions:
  "scanFiles js fs dirPath decoded files sessions =
     sessions @ fileSessions js fs dirPath decoded files"
proof (induction files arbitrary: sessions)
  case Nil
  show ?case by (simp add: fileSessions_def)
next
  case (Cons f files)
  show ?case
    by (cases "parseSessionFile js fs (path_join dirPath f) (str_replace f ''.jsonl'' []) decoded")
       (auto simp: Cons.IH fileSessions_def Let_def split: option.splits)
qed

lemma scanProjects_listable:
  "list_all (\<lambda>d. case fs_readdir fs (path_join root (name d)) of Inr es \<Rightarrow> True | Inl e \<Rightarrow> False) dirs \<Longrightarrow>
     scanProjects js fs root dirs sessions =
       Inr (sessions @ concat (map (projectSessions js fs root) dirs))"
proof (induction dirs arbitrary: sessions)
  case Nil
  show ?case by simp
next
  case (Cons d dirs)
  then obtain es where es: "fs_readdir fs (path_join root (name d)) = Inr es"
    by (cases "fs_readdir fs (path_join root (name d))") auto
  show ?case
    using Cons es by (simp add: Let_def projectSessions_def scanFiles_fileSessions)
qed

lemma scanProjects_unlistable:
  "\<not> list_all (\<lambda>d. case fs_readdir fs (path_join root (name d)) of Inr es \<Rightarrow> True | Inl e \<Rightarrow> False) dirs \<Longrightarrow>
     \<exists>e. scanProjects js fs root dirs sessions = Inl e \<and>
         list_ex (\<lambda>d. fs_readdir fs (path_join root (name d)) = Inl e) dirs"
proof (induction dirs arbitrary: sessions)
  case Nil
  then show ?case by simp
next
  case (Cons d dirs)
  show ?case
  proof (cases "fs_readdir fs (path_join root (name d))")
    case (Inl e)
    then show ?thesis by (intro exI [of _ e]) (simp add: Let_def)
  next
    case (Inr es)
    then have "\<not> list_all (\<lambda>d. case fs_readdir fs (path_join root (name d)) of
                                 Inr es \<Rightarrow> True | Inl e \<Rightarrow> False) dirs"
      using Cons.prems by simp
    from Cons.IH [OF this] obtain e where
      "scanProjects js fs root dirs
         (scanFiles js fs (path_join root (name d)) (decodeProjectPath fs (name d))
            (filter isSessionFile (map name es)) sessions) = Inl e"
      "list_ex (\<lambda>d. fs_readdir fs (path_join root (name d)) = Inl e) dirs"
      by blast
    then show ?thesis using Inr by (intro exI [of _ e]) (simp add: Let_def)
  qed
qed

lemma walkProjects_listable:
  assumes "fs_readdir fs root = Inr entries" "listable fs root entries"
  shows "walkProjects js fs root =
           Inr (concat (map (projectSessions js fs root) (filter isProjectDir entries)))"
  using assms scanProjects_listable [of fs root "filter isProjectDir entries" js "[]"]
  by (simp add: walkProjects_def listable_def)

lemma walkProjects_unlistable:
  assumes "fs_readdir fs root = Inr entries" "\<not> listable fs root entries"
  shows "\<exists>e. walkProjects js fs root = Inl e \<and> list_ex (unlistableWith fs root e) entries"
proof -
  from assms(2) obtain e where
    s: "scanProjects js fs root (filter isProjectDir entries) [] = Inl e" and
    l: "list_ex (\<lambda>d. fs_readdir fs (path_join root (name d)) = Inl e) (filter isProjectDir entries)"
    using scanProjects_unlistable [of fs root "filter isProjectDir entries" js "[]"]
    by (auto simp: listable_def)
  from l have "list_ex (unlistableWith fs root e) entries"
    by (auto simp: list_ex_iff unlistableWith_def)
  with s assms(1) show ?thesis by (auto simp: walkProjects_def)
qed

text \<open>
  Claim C9, as amended.  When the corpus root does not exist \<open>getSessions\<close> returns the
  empty list.  When the root and every project directory in it can be listed,
  \<open>getSessions\<close> does not raise: it returns the sorted and truncated list of the sessions
  of the files that parse, a file whose \<open>statSync\<close>, \<open>readFileSync\<close> or parse fails being
  skipped while the files and directories after it are still read.  It raises when the
  listing of the root throws, with that error, and when the listing of a project
  directory throws, with the error of such a directory.
\<close>

theorem getSessions_recovers_files:
  "(\<not> existsSync fs root \<longrightarrow> getSessions js fs root N = Inr []) \<and>
   (existsSync fs root \<and> fs_readdir fs root = Inr entries \<and> listable fs root entries \<longrightarrow>
      getSessions js fs root N =
        Inr (js_slice (js_sort js byLastActivity
               (concat (map (projectSessions js fs root) (filter isProjectDir entries)))) 0 N)) \<and>
   (existsSync fs root \<and> fs_readdir fs root = Inl e \<longrightarrow> getSessions js fs root N = Inl e) \<and>
   (existsSync fs root \<and> fs_readdir fs root = Inr entries \<and> \<not> listable fs root entries \<longrightarrow>
      (\<exists>e'. getSessions js fs root N = Inl e' \<and> list_ex (unlistableWith fs root e') entries))"
proof (intro conjI impI)
  assume "\<not> existsSync fs root"
  then show "getSessions js fs root N = Inr []" by (simp add: getSessions_def)
next
  assume "existsSync fs root \<and> fs_readdir fs root = Inr entries \<and> listable fs root entries"
  then show "getSessions js fs root N =
        Inr (js_slice (js_sort js byLastActivity
               (concat (map (projectSessions js fs root) (filter isProjectDir entries)))) 0 N)"
    using walkProjects_listable [of fs root entries js] by (simp add: getSessions_def)
next
  assume "existsSync fs root \<and> fs_readdir fs root = Inl e"
  then show "getSessions js fs root N = Inl e"
    by (simp add: getSessions_def walkProjects_def)
next
  assume a: "existsSync fs root \<and> fs_readdir fs root = Inr entries \<and> \<not> listable fs root entries"
  then obtain e' where "walkProjects js fs root = Inl e'" "list_ex (unlistableWith fs root e') entries"
    using walkProjects_unlistable [of fs root entries js] by blast
  then show "\<exists>e'. getSessions js fs root N = Inl e' \<and> list_ex (unlistableWith fs root e') entries"
    using a by (intro exI [of _ e']) (simp add: getSessions_def)
qed

theorem getSessions_recovers_files_witness:
  "\<not> existsSync emptyFS ''/r'' \<and> getSessions exampleJS emptyFS ''/r'' 50 = Inr [] \<and>
   existsSync brokenFileFS ''/r'' \<and>
   fs_readdir brokenFileFS ''/r'' = Inr [dirEntry ''p'', dirEntry ''q''] \<and>
   listable brokenFileFS ''/r'' [dirEntry ''p'', dirEntry ''q''] \<and>
   parseSessionFile exampleJS brokenFileFS ''/r/p/a.jsonl'' ''a'' ''/p'' = Inl EISDIR \<and>
   map_sum id (map s_id) (getSessions exampleJS brokenFileFS ''/r'' 50) = Inr [''c'', ''b''] \<and>
   existsSync rootIsFileFS ''/r'' \<and> fs_readdir rootIsFileFS ''/r'' = Inl ENOTDIR \<and>
   getSessions exampleJS rootIsFileFS ''/r'' 50 = Inl ENOTDIR \<and>
   existsSync lockedProjectFS ''/r'' \<and> fs_readdir lockedProjectFS ''/r'' = Inr [dirEntry ''p''] \<and>
   \<not> listable lockedProjectFS ''/r'' [dirEntry ''p''] \<and>
   (\<exists>e'. getSessions exampleJS lockedProjectFS ''/r'' 50 = Inl e' \<and>
          list_ex (unlistableWith lockedProjectFS ''/r'' e') [dirEntry ''p''])"
proof -
  have a: "\<not> existsSync emptyFS ''/r''" by code_simp
  have b: "existsSync brokenFileFS ''/r''" by code_simp
  have c: "fs_readdir brokenFileFS ''/r'' = Inr [dirEntry ''p'', dirEntry ''q'']" by code_simp
  have d: "listable brokenFileFS ''/r'' [dirEntry ''p'', dirEntry ''q'']" by code_simp
  have e: "parseSessionFile exampleJS brokenFileFS ''/r/p/a.jsonl'' ''a'' ''/p'' = Inl EISDIR"
    by code_simp
  have f: "map_sum id (map s_id)
             (Inr (js_slice (js_sort exampleJS byLastActivity
               (concat (map (projectSessions exampleJS brokenFileFS ''/r'')
                  (filter isProjectDir [dirEntry ''p'', dirEntry ''q''])))) 0 50)
              :: fs_error + ClaudeSession list) = Inr [''c'', ''b'']"
    by code_simp
  have r1: "existsSync rootIsFileFS ''/r''" by code_simp
  have r2: "fs_readdir rootIsFileFS ''/r'' = Inl ENOTDIR" by code_simp
  have l1: "existsSync lockedProjectFS ''/r''" by code_simp
  have l2: "fs_readdir lockedProjectFS ''/r'' = Inr [dirEntry ''p'']" by code_simp
  have l3: "\<not> listable lockedProjectFS ''/r'' [dirEntry ''p'']" by code_simp
  from getSessions_recovers_files [where fs = emptyFS and root = "''/r''" and js = exampleJS and N = 50] a
  have g: "getSessions exampleJS emptyFS ''/r'' 50 = Inr []" by blast
  from getSessions_recovers_files [where fs = brokenFileFS and root = "''/r''" and js = exampleJS
      and N = 50 and entries = "[dirEntry ''p'', dirEntry ''q'']"] b c d
  have h: "getSessions exampleJS brokenFileFS ''/r'' 50 =
        Inr (js_slice (js_sort exampleJS byLastActivity
               (concat (map (projectSessions exampleJS brokenFileFS ''/r'')
                  (filter isProjectDir [dirEntry ''p'', dirEntry ''q''])))) 0 50)" by blast
  from getSessions_recovers_files [where fs = rootIsFileFS and root = "''/r''" and js = exampleJS
      and N = 50 and e = ENOTDIR] r1 r2
  have i: "getSessions exampleJS rootIsFileFS ''/r'' 50 = Inl ENOTDIR" by blast
  from getSessions_recovers_files [where fs = lockedProjectFS and root = "''/r''" and js = exampleJS
      and N = 50 and entries = "[dirEntry ''p'']"] l1 l2 l3
  have j: "\<exists>e'. getSessions exampleJS lockedProjectFS ''/r'' 50 = Inl e' \<and>
          list_ex (unlistableWith lockedProjectFS ''/r'' e') [dirEntry ''p'']" by blast
  have k: "map_sum id (map s_id) (getSessions exampleJS brokenFileFS ''/r'' 50) = Inr [''c'', ''b'']"
    using f unfolding h .
  show ?thesis using a b c d e g k r1 r2 i l1 l2 l3 j by blast
qed

text \<open>
  The claim as stated fails: \<open>getSessions\<close> does raise.  The listing of a project
  directory stands outside the \<open>try\<close>, so a project directory that cannot be read
  makes the whole call throw.
\<close>

theorem getSessions_raises_counterexample:
  "existsSync lockedProjectFS ''/r'' \<and> getSessions exampleJS lockedProjectFS ''/r'' 50 = Inl EACCES"
  by code_simp

subsection \<open>The order and the limit\<close>

lemma set_insertBy: "set (insertBy cmp x ys) = insert x (set ys)"
  by (induction ys) auto

lemma length_insertBy: "length (insertBy cmp x ys) = Suc (length ys)"
  by (induction ys) auto

lemma byLastActivity_valid:
  "lastActivityTime a \<noteq> None \<Longrightarrow> lastActivityTime b \<noteq> None \<Longrightarrow>
     byLastActivity a b = Some (getTime (lastActivityTime b) - getTime (lastActivityTime a))"
  by (auto simp: byLastActivity_def getTime_def)

lemma consistentOn_valid:
  assumes "\<forall>y \<in> set xs. lastActivityTime y \<noteq> None"
  shows "consistentOn byLastActivity xs"
  unfolding consistentOn_def list_all_iff
  using assms by (auto simp: byLastActivity_valid sortValue_def)

lemma sorted_insertBy:
  assumes "lastActivityTime x \<noteq> None" "\<forall>y \<in> set ys. lastActivityTime y \<noteq> None"
    and "sorted_wrt (\<lambda>a b. getTime (lastActivityTime b) \<le> getTime (lastActivityTime a)) ys"
  shows "sorted_wrt (\<lambda>a b. getTime (lastActivityTime b) \<le> getTime (lastActivityTime a))
           (insertBy byLastActivity x ys)"
  using assms
proof (induction ys)
  case Nil
  then show ?case by simp
next
  case (Cons y ys)
  show ?case
  proof (cases "sortValue (byLastActivity x y) \<le> 0")
    case True
    then have "getTime (lastActivityTime y) \<le> getTime (lastActivityTime x)"
      using Cons.prems byLastActivity_valid [of x y] by (simp add: sortValue_def)
    then show ?thesis using True Cons.prems by fastforce
  next
    case False
    then have "getTime (lastActivityTime x) \<le> getTime (lastActivityTime y)"
      using Cons.prems byLastActivity_valid [of x y] by (simp add: sortValue_def)
    then show ?thesis
      using False Cons by (auto simp: set_insertBy)
  qed
qed

lemma insertion_sorted:
  "\<forall>y \<in> set xs. lastActivityTime y \<noteq> None \<Longrightarrow>
     sorted_wrt (\<lambda>a b. getTime (lastActivityTime b) \<le> getTime (lastActivityTime a))
       (foldr (insertBy byLastActivity) xs [])"
proof (induction xs)
  case Nil
  show ?case by simp
next
  case (Cons x xs)
  have s: "set (foldr (insertBy byLastActivity) xs []) = set xs"
    by (induction xs) (simp_all add: set_insertBy)
  show ?case
    using Cons sorted_insertBy [of x "foldr (insertBy byLastActivity) xs []"] s by simp
qed

lemma js_sort_sorted:
  "\<forall>y \<in> set xs. lastActivityTime y \<noteq> None \<Longrightarrow>
     sorted_wrt (\<lambda>a b. getTime (lastActivityTime b) \<le> getTime (lastActivityTime a))
       (js_sort js byLastActivity xs)"
  by (simp add: js_sort_def consistentOn_valid insertion_sorted)

lemma js_slice_take: "0 \<le> n \<Longrightarrow> js_slice xs 0 n = take (nat n) xs"
  by (simp add: js_slice_def Let_def min_def)

lemma sorted_wrt_take_list: "sorted_wrt P xs \<Longrightarrow> sorted_wrt P (take n xs)"
proof (induction xs arbitrary: n)
  case Nil
  show ?case by simp
next
  case (Cons x xs)
  show ?case
  proof (cases n)
    case 0
    then show ?thesis by simp
  next
    case (Suc m)
    have "set (take m xs) \<subseteq> set xs" by (rule set_take_subset)
    then show ?thesis using Cons Suc by auto
  qed
qed

text \<open>
  Claim C4, as amended.  For every limit \<open>N \<ge> 0\<close>, when the last activity of every
  collected session is a valid date, \<open>getSessions\<close> returns at most \<open>N\<close> sessions, in
  descending order of \<open>lastActivityTime\<close> where equal times may follow each other.
\<close>

theorem getSessions_limit_sorted:
  assumes "getSessions js fs root N = Inr ss" and "0 \<le> N" and "validActivityTimes js fs root"
  shows "int (length ss) \<le> N \<and>
         sorted_wrt (\<lambda>a b. getTime (lastActivityTime b) \<le> getTime (lastActivityTime a)) ss"
proof (cases "existsSync fs root")
  case False
  then show ?thesis using assms by (simp add: getSessions_def)
next
  case True
  with assms(1) obtain sessions where w: "walkProjects js fs root = Inr sessions"
    and ss: "ss = js_slice (js_sort js byLastActivity sessions) 0 N"
    by (auto simp: getSessions_def split: sum.splits)
  have valid: "\<forall>y \<in> set sessions. lastActivityTime y \<noteq> None"
    using assms(3) w by (simp add: validActivityTimes_def list_all_iff)
  have t: "ss = take (nat N) (js_sort js byLastActivity sessions)"
    using ss assms(2) by (simp add: js_slice_take)
  have "length ss \<le> nat N" unfolding t by simp
  then have "int (length ss) \<le> N" using assms(2) by linarith
  moreover have "sorted_wrt (\<lambda>a b. getTime (lastActivityTime b) \<le> getTime (lastActivityTime a)) ss"
    unfolding t using js_sort_sorted [OF valid] by (rule sorted_wrt_take_list)
  ultimately show ?thesis by blast
qed

theorem getSessions_limit_sorted_witness:
  "map_sum id (map s_id) (getSessions exampleJS brokenFileFS ''/r'' 1) = Inr [''c''] \<and>
   validActivityTimes exampleJS brokenFileFS ''/r'' \<and>
   (\<exists>ss. getSessions exampleJS brokenFileFS ''/r'' 1 = Inr ss \<and> int (length ss) \<le> 1 \<and>
      sorted_wrt (\<lambda>a b. getTime (lastActivityTime b) \<le> getTime (lastActivityTime a)) ss)"
proof -
  have e: "map_sum id (map s_id) (getSessions exampleJS brokenFileFS ''/r'' 1) = Inr [''c'']"
    by code_simp
  then obtain ss where g: "getSessions exampleJS brokenFileFS ''/r'' 1 = Inr ss"
    by (cases "getSessions exampleJS brokenFileFS ''/r'' 1") auto
  have v: "validActivityTimes exampleJS brokenFileFS ''/r''" by code_simp
  have n: "(0::int) \<le> 1" by simp
  from getSessions_limit_sorted [OF g n v] e v g show ?thesis by blast
qed

text \<open>
  The claim as stated fails: two transcripts with the same last activity are both
  returned, so the order is not strictly descending; and a negative limit cuts from the
  end, so \<open>getSessions(-1)\<close> on two sessions returns one, which is more than \<open>-1\<close>.
\<close>

theorem getSessions_strict_counterexample:
  "map_sum id (map lastActivityTime) (getSessions exampleJS tieFS ''/r'' 50) = Inr [Some 5, Some 5] \<and>
   map_sum id (map s_id) (getSessions exampleJS tieFS ''/r'' (- 1)) = Inr [''a'']"
  by code_simp

lemma getSessions_sorted:
  assumes "getSessions js fs root N = Inr ss" "0 \<le> N" "validActivityTimes js fs root"
  shows "sorted_wrt (\<lambda>a b. getTime (lastActivityTime b) \<le> getTime (lastActivityTime a)) ss"
proof (cases "existsSync fs root")
  case False
  then show ?thesis using assms(1) by (simp add: getSessions_def)
next
  case True
  with assms(1) obtain sessions where w: "walkProjects js fs root = Inr sessions"
    and ss: "ss = js_slice (js_sort js byLastActivity sessions) 0 N"
    by (auto simp: getSessions_def split: sum.splits)
  have "\<forall>y \<in> set sessions. lastActivityTime y \<noteq> None"
    using assms(3) w by (simp add: validActivityTimes_def list_all_iff)
  then show ?thesis
    unfolding ss js_slice_take [OF assms(2)] by (intro sorted_wrt_take_list js_sort_sorted)
qed

section \<open>Properties of the transcript search\<close>

subsection \<open>The context window\<close>

lemma firstOccurrence_0: "startsWith l q \<Longrightarrow> firstOccurrence l q 0"
  by (simp add: firstOccurrence_def)

lemma firstOccurrence_Suc:
  assumes "\<not> startsWith (x # xs) q" "firstOccurrence xs q i"
  shows "firstOccurrence (x # xs) q (Suc i)"
proof -
  have "\<forall>j < Suc i. \<not> startsWith (drop j (x # xs)) q"
  proof (intro allI impI)
    fix j assume "j < Suc i"
    show "\<not> startsWith (drop j (x # xs)) q"
    proof (cases j)
      case 0
      then show ?thesis using assms(1) by simp
    next
      case (Suc j')
      then have "j' < i" using \<open>j < Suc i\<close> by simp
      then show ?thesis using assms(2) Suc by (simp add: firstOccurrence_def list_all_iff)
    qed
  qed
  then show ?thesis
    using assms(2) by (simp add: firstOccurrence_def list_all_iff del: upt_Suc)
qed

lemma indexOf_first:
  "str_includes l q \<Longrightarrow> \<exists>i. indexOf l q = int i \<and> firstOccurrence l q i"
proof (induction l)
  case Nil
  then show ?case by (auto simp: firstOccurrence_def startsWith_def)
next
  case (Cons x xs)
  show ?case
  proof (cases "startsWith (x # xs) q")
    case True
    then show ?thesis using firstOccurrence_0 by (intro exI [of _ 0]) simp
  next
    case False
    with Cons.prems have "str_includes xs q" by simp
    then obtain i where i: "indexOf xs q = int i" "firstOccurrence xs q i"
      using Cons.IH by blast
    show ?thesis
      using False i firstOccurrence_Suc [OF False i(2)]
      by (intro exI [of _ "Suc i"]) (simp add: Let_def)
  qed
qed

lemma js_slice_nat:
  "b \<le> length xs \<Longrightarrow> js_slice xs (int a) (int b) = take (b - a) (drop a xs)"
  by (simp add: js_slice_def Let_def min_def nat_diff_distrib')

lemma matchContextOf_window:
  assumes "indexOf (toLowerCase js text) (toLowerCase js query) = int i"
  shows "matchContextOf js query text =
     (if 50 < i then ''...'' else []) @
     take (min (length text) (i + length query + 50) - (i - 50)) (drop (i - 50) text) @
     (if i + length query + 50 < length text then ''...'' else [])"
proof -
  have s: "max 0 (int i - 50) = int (i - 50)" by simp
  have f: "min (int (length text)) (int i + int (length query) + 50) =
           int (min (length text) (i + length query + 50))" by simp
  have sl: "js_slice text (int (i - 50)) (int (min (length text) (i + length query + 50))) =
            take (min (length text) (i + length query + 50) - (i - 50)) (drop (i - 50) text)"
    by (intro js_slice_nat) simp
  have c1: "(0 < int (i - 50)) = (50 < i)" by auto
  have c2: "(int (min (length text) (i + length query + 50)) < int (length text)) =
            (i + length query + 50 < length text)" by auto
  show ?thesis
    unfolding matchContextOf_def Let_def assms(1) s f sl c1 c2 ..
qed

lemma searchMessages_hitOk:
  "\<forall>h \<in> set results. hitOk js query h \<Longrightarrow>
     \<forall>h \<in> set (fst (searchMessages js query k sess msgs results)). hitOk js query h"
proof (induction msgs arbitrary: results)
  case Nil
  then show ?case by simp
next
  case (Cons msg rest)
  let ?hit = "\<lparr>session = sess, message = msg, matchContext = matchContextOf js query (m_content msg)\<rparr>"
  show ?case
  proof (cases "str_includes (toLowerCase js (m_content msg)) (toLowerCase js query)")
    case True
    then have "hitOk js query ?hit" by (simp add: hitOk_def isMatch_def)
    then have ok: "\<forall>h \<in> set (results @ [?hit]). hitOk js query h" using Cons.prems by simp
    show ?thesis
      using True ok Cons.IH [OF ok] by (simp add: Let_def)
  next
    case False
    then show ?thesis using Cons.IH [OF Cons.prems] by simp
  qed
qed

lemma searchSessions_hitOk:
  "\<forall>h \<in> set results. hitOk js query h \<Longrightarrow>
     searchSessions js fs root query k ss results = Inr hits \<Longrightarrow>
     \<forall>h \<in> set hits. hitOk js query h"
proof (induction ss arbitrary: results)
  case Nil
  then show ?case by simp
next
  case (Cons sess rest)
  from Cons.prems(2) obtain msgs where m: "getSessionMessages js fs root (s_id sess) = Inr msgs"
    by (auto split: sum.splits)
  obtain r b where sm: "searchMessages js query k sess msgs results = (r, b)" by fastforce
  have ok: "\<forall>h \<in> set r. hitOk js query h"
    using searchMessages_hitOk [OF Cons.prems(1), of k sess msgs] sm by simp
  show ?case
  proof (cases b)
    case True
    then show ?thesis using Cons.prems(2) m sm ok by simp
  next
    case False
    then have "searchSessions js fs root query k rest r = Inr hits"
      using Cons.prems(2) m sm by simp
    then show ?thesis using Cons.IH [OF ok] by simp
  qed
qed

text \<open>
  Claim C7.  Every hit that \<open>searchTranscripts\<close> returns is a message whose lowercased
  content contains the lowercased query, and with \<open>i\<close> the first occurrence of the
  lowercased query in the lowercased content, its context is the content from
  \<open>max(0, i - 50)\<close> to \<open>min(length, i + |query| + 50)\<close>, with \<open>...\<close> in front exactly when
  \<open>i > 50\<close> and \<open>...\<close> behind exactly when \<open>i + |query| + 50\<close> is below the length of the
  content.  This holds for every lowering of the runtime, also one that changes the
  length of a text.
\<close>

theorem matchContext_window:
  assumes "searchTranscripts js fs root query k = Inr hits" and "h \<in> set hits"
  shows "\<exists>i. firstOccurrence (toLowerCase js (m_content (message h))) (toLowerCase js query) i \<and>
     matchContext h =
       (if 50 < i then ''...'' else []) @
       take (min (length (m_content (message h))) (i + length query + 50) - (i - 50))
         (drop (i - 50) (m_content (message h))) @
       (if i + length query + 50 < length (m_content (message h)) then ''...'' else [])"
proof -
  from assms(1) obtain ss where "searchSessions js fs root query k ss [] = Inr hits"
    by (auto simp: searchTranscripts_def split: sum.splits)
  then have "hitOk js query h"
    using searchSessions_hitOk [of "[]" js query fs root k ss hits] assms(2) by simp
  then have inc: "str_includes (toLowerCase js (m_content (message h))) (toLowerCase js query)"
    and ctx: "matchContext h = matchContextOf js query (m_content (message h))"
    by (simp_all add: hitOk_def isMatch_def)
  from indexOf_first [OF inc] obtain i where
    i: "indexOf (toLowerCase js (m_content (message h))) (toLowerCase js query) = int i"
       "firstOccurrence (toLowerCase js (m_content (message h))) (toLowerCase js query) i"
    by blast
  show ?thesis
    using i(2) ctx matchContextOf_window [OF i(1)] by (intro exI [of _ i]) simp
qed


theorem matchContext_window_witness:
  "searchTranscripts exampleJS oneTranscriptFS ''/r'' ''diff'' 10 = Inr [longReplyHit] \<and>
   firstOccurrence (toLowerCase exampleJS longReply) (toLowerCase exampleJS ''diff'') 75 \<and>
   (\<exists>i. firstOccurrence (toLowerCase exampleJS (m_content (message longReplyHit)))
          (toLowerCase exampleJS ''diff'') i \<and>
     matchContext longReplyHit =
       (if 50 < i then ''...'' else []) @
       take (min (length (m_content (message longReplyHit))) (i + length ''diff'' + 50) - (i - 50))
         (drop (i - 50) (m_content (message longReplyHit))) @
       (if i + length ''diff'' + 50 < length (m_content (message longReplyHit)) then ''...'' else []))"
proof -
  have e: "searchTranscripts exampleJS oneTranscriptFS ''/r'' ''diff'' 10 = Inr [longReplyHit]"
    by code_simp
  have m: "longReplyHit \<in> set [longReplyHit]" by simp
  have f: "firstOccurrence (toLowerCase exampleJS longReply) (toLowerCase exampleJS ''diff'') 75"
    by code_simp
  show ?thesis
    using e f matchContext_window [OF e m] by blast
qed

subsection \<open>The cap and the order of the hits\<close>

lemma messagesOf_Inr:
  "getSessionMessages js fs root (s_id sess) = Inr msgs \<Longrightarrow> messagesOf js fs root sess = msgs"
  by (simp add: messagesOf_def)

lemma searchMessages_take:
  "searchMessages js query k sess msgs results =
     (results @ take (nat (max 1 (k - int (length results)))) (sessionHits js query sess msgs),
      sessionHits js query sess msgs \<noteq> [] \<and>
      k \<le> int (length results + length (sessionHits js query sess msgs)))"
proof (induction msgs arbitrary: results)
  case Nil
  show ?case by (simp add: sessionHits_def)
next
  case (Cons msg rest)
  show ?case
  proof (cases "isMatch js query msg")
    case False
    then show ?thesis using Cons.IH [of results] by (simp add: sessionHits_def isMatch_def)
  next
    case True
    let ?h = "hitOf js query sess msg"
    have hits: "sessionHits js query sess (msg # rest) = ?h # sessionHits js query sess rest"
      using True by (simp add: sessionHits_def)
    have inc: "str_includes (toLowerCase js (m_content msg)) (toLowerCase js query)"
      using True by (simp add: isMatch_def)
    show ?thesis
    proof (cases "k \<le> int (length results) + 1")
      case True
      then have "nat (max 1 (k - int (length results))) = 1" by simp
      then show ?thesis
        using True inc unfolding hits by (simp add: Let_def hitOf_def)
    next
      case False
      then have n: "nat (max 1 (k - int (length results))) =
                    Suc (nat (max 1 (k - int (length (results @ [?h])))))" by simp
      have b: "(sessionHits js query sess rest \<noteq> [] \<and>
                k \<le> int (length (results @ [?h]) + length (sessionHits js query sess rest))) =
               (k \<le> int (length results + length (?h # sessionHits js query sess rest)))"
        using False by auto
      show ?thesis
        using False inc Cons.IH [of "results @ [?h]"] b
        unfolding hits n by (simp add: Let_def hitOf_def)
    qed
  qed
qed

lemma searchSessions_take:
  "readable js fs root ss \<Longrightarrow> results = [] \<or> int (length results) < k \<Longrightarrow>
     searchSessions js fs root query k ss results =
       Inr (results @ take (nat (max 1 (k - int (length results)))) (corpusHits js fs root query ss))"
proof (induction ss arbitrary: results)
  case Nil
  show ?case by (simp add: corpusHits_def)
next
  case (Cons sess rest)
  from Cons.prems(1) obtain msgs where m: "getSessionMessages js fs root (s_id sess) = Inr msgs"
    and r: "readable js fs root rest"
    by (cases "getSessionMessages js fs root (s_id sess)") (auto simp: readable_def)
  let ?h = "sessionHits js query sess msgs"
  let ?n = "length results"
  have ch: "corpusHits js fs root query (sess # rest) = ?h @ corpusHits js fs root query rest"
    using m by (simp add: corpusHits_def messagesOf_def)
  show ?case
  proof (cases "?h \<noteq> [] \<and> k \<le> int (?n + length ?h)")
    case True
    then have "nat (max 1 (k - int ?n)) \<le> length ?h"
      by (cases ?h) auto
    moreover have "searchMessages js query k sess msgs results =
        (results @ take (nat (max 1 (k - int ?n))) ?h, True)"
      using True by (simp add: searchMessages_take)
    ultimately show ?thesis
      using m unfolding ch by simp
  next
    case False
    then have full: "take (nat (max 1 (k - int ?n))) ?h = ?h"
      by (cases "?h = []") auto
    have inv: "results @ ?h = [] \<or> int (length (results @ ?h)) < k"
      using False Cons.prems(2) by auto
    have cnt: "take (nat (max 1 (k - int ?n))) (?h @ corpusHits js fs root query rest) =
               ?h @ take (nat (max 1 (k - int (length (results @ ?h))))) (corpusHits js fs root query rest)"
    proof (cases "?h = []")
      case True
      then show ?thesis by simp
    next
      case ne: False
      with False have "int (?n + length ?h) < k" by simp
      then have "nat (max 1 (k - int ?n)) - length ?h = nat (max 1 (k - int (length (results @ ?h))))"
        by auto
      moreover have "length ?h \<le> nat (max 1 (k - int ?n))"
        using \<open>int (?n + length ?h) < k\<close> by auto
      ultimately show ?thesis by simp
    qed
    have sm: "searchMessages js query k sess msgs results = (results @ ?h, False)"
      using False full by (simp add: searchMessages_take)
    show ?thesis
      using m sm Cons.IH [OF r inv] unfolding ch cnt by simp
  qed
qed

lemma searchSessions_early:
  "readable js fs root pre \<Longrightarrow> results = [] \<or> int (length results) < k \<Longrightarrow>
     corpusHits js fs root query pre \<noteq> [] \<Longrightarrow>
     k \<le> int (length results + length (corpusHits js fs root query pre)) \<Longrightarrow>
     searchSessions js fs root query k (pre @ rest) results =
       Inr (results @ take (nat (max 1 (k - int (length results)))) (corpusHits js fs root query pre))"
proof (induction pre arbitrary: results)
  case Nil
  then show ?case by (simp add: corpusHits_def)
next
  case (Cons sess pre)
  from Cons.prems(1) obtain msgs where m: "getSessionMessages js fs root (s_id sess) = Inr msgs"
    and r: "readable js fs root pre"
    by (cases "getSessionMessages js fs root (s_id sess)") (auto simp: readable_def)
  let ?h = "sessionHits js query sess msgs"
  let ?n = "length results"
  let ?c = "corpusHits js fs root query pre"
  have ch: "corpusHits js fs root query (sess # pre) = ?h @ ?c"
    using m by (simp add: corpusHits_def messagesOf_def)
  show ?case
  proof (cases "?h \<noteq> [] \<and> k \<le> int (?n + length ?h)")
    case True
    then have "nat (max 1 (k - int ?n)) \<le> length ?h"
      by (cases ?h) auto
    moreover have "searchMessages js query k sess msgs results =
        (results @ take (nat (max 1 (k - int ?n))) ?h, True)"
      using True by (simp add: searchMessages_take)
    ultimately show ?thesis
      using m unfolding ch by simp
  next
    case False
    then have full: "take (nat (max 1 (k - int ?n))) ?h = ?h"
      by (cases "?h = []") auto
    have inv: "results @ ?h = [] \<or> int (length (results @ ?h)) < k"
      using False Cons.prems(2) by auto
    have cne: "?c \<noteq> []"
      using False Cons.prems(3,4) unfolding ch by (cases "?h = []") auto
    have enough: "k \<le> int (length (results @ ?h) + length ?c)"
      using Cons.prems(4) unfolding ch by simp
    have cnt: "take (nat (max 1 (k - int ?n))) (?h @ ?c) =
               ?h @ take (nat (max 1 (k - int (length (results @ ?h))))) ?c"
    proof (cases "?h = []")
      case True
      then show ?thesis by simp
    next
      case ne: False
      with False have lt: "int (?n + length ?h) < k" by simp
      then have "nat (max 1 (k - int ?n)) - length ?h = nat (max 1 (k - int (length (results @ ?h))))"
        by auto
      moreover have "length ?h \<le> nat (max 1 (k - int ?n))"
        using lt by auto
      ultimately show ?thesis by simp
    qed
    have sm: "searchMessages js query k sess msgs results = (results @ ?h, False)"
      using False full by (simp add: searchMessages_take)
    show ?thesis
      using m sm Cons.IH [OF r inv cne enough] unfolding ch cnt by simp
  qed
qed

text \<open>The sessions that a returning search has read, and those it has left unread.\<close>

lemma searchSessions_scanned:
  "searchSessions js fs root query k ss results = Inr hits \<Longrightarrow>
   results = [] \<or> int (length results) < k \<Longrightarrow>
     \<exists>scanned unread. ss = scanned @ unread \<and> readable js fs root scanned \<and>
        (unread = [] \<or>
         corpusHits js fs root query scanned \<noteq> [] \<and>
         k \<le> int (length results + length (corpusHits js fs root query scanned)))"
proof (induction ss arbitrary: results)
  case Nil
  show ?case by (intro exI [of _ "[]"]) (simp add: readable_def)
next
  case (Cons sess rest)
  from Cons.prems(1) obtain msgs where m: "getSessionMessages js fs root (s_id sess) = Inr msgs"
    by (auto split: sum.splits)
  let ?h = "sessionHits js query sess msgs"
  let ?n = "length results"
  have one: "corpusHits js fs root query [sess] = ?h"
    using m by (simp add: corpusHits_def messagesOf_def)
  have r1: "readable js fs root [sess]" using m by (simp add: readable_def)
  show ?case
  proof (cases "?h \<noteq> [] \<and> k \<le> int (?n + length ?h)")
    case True
    have "sess # rest = [sess] @ rest" by simp
    then show ?thesis using True one r1 by metis
  next
    case False
    then have full: "take (nat (max 1 (k - int ?n))) ?h = ?h"
      by (cases "?h = []") auto
    have inv: "results @ ?h = [] \<or> int (length (results @ ?h)) < k"
      using False Cons.prems(2) by auto
    have sm: "searchMessages js query k sess msgs results = (results @ ?h, False)"
      using False full by (simp add: searchMessages_take)
    have "searchSessions js fs root query k rest (results @ ?h) = Inr hits"
      using Cons.prems(1) m sm by simp
    from Cons.IH [OF this inv] obtain scanned unread where
      s: "rest = scanned @ unread" "readable js fs root scanned"
         "unread = [] \<or>
          corpusHits js fs root query scanned \<noteq> [] \<and>
          k \<le> int (length (results @ ?h) + length (corpusHits js fs root query scanned))"
      by blast
    have ch: "corpusHits js fs root query (sess # scanned) = ?h @ corpusHits js fs root query scanned"
      using m by (simp add: corpusHits_def messagesOf_def)
    have a: "sess # rest = (sess # scanned) @ unread" using s(1) by simp
    have b: "readable js fs root (sess # scanned)" using s(2) m by (simp add: readable_def)
    have c: "unread = [] \<or>
             corpusHits js fs root query (sess # scanned) \<noteq> [] \<and>
             k \<le> int (length results + length (corpusHits js fs root query (sess # scanned)))"
      using s(3) unfolding ch by auto
    show ?thesis using a b c by blast
  qed
qed

lemma searchTranscripts_scanned:
  assumes "getSessions js fs root 200 = Inr (scanned @ unread)" "readable js fs root scanned"
    and "1 \<le> k" "unread = [] \<or> k \<le> int (length (corpusHits js fs root query scanned))"
  shows "searchTranscripts js fs root query k =
           Inr (take (nat k) (corpusHits js fs root query scanned))"
proof (cases "k \<le> int (length (corpusHits js fs root query scanned))")
  case True
  then have ne: "corpusHits js fs root query scanned \<noteq> []" using assms(3) by auto
  show ?thesis
    using assms(1,3) True
      searchSessions_early [of js fs root scanned "[]" k query unread, OF assms(2) _ ne]
    by (simp add: searchTranscripts_def max_def)
next
  case False
  then have "unread = []" using assms(4) by simp
  then show ?thesis
    using assms(1,3) searchSessions_take [of js fs root scanned "[]" k query, OF assms(2)]
    by (simp add: searchTranscripts_def max_def)
qed

lemma searchTranscripts_Inr_iff:
  assumes "1 \<le> k"
  shows "(searchTranscripts js fs root query k = Inr hits) =
     (\<exists>scanned unread.
        getSessions js fs root 200 = Inr (scanned @ unread) \<and> readable js fs root scanned \<and>
        (unread = [] \<or> k \<le> int (length (corpusHits js fs root query scanned))) \<and>
        hits = take (nat k) (corpusHits js fs root query scanned))"
proof
  assume r: "searchTranscripts js fs root query k = Inr hits"
  then obtain ss where g: "getSessions js fs root 200 = Inr ss"
    and s: "searchSessions js fs root query k ss [] = Inr hits"
    by (auto simp: searchTranscripts_def split: sum.splits)
  from searchSessions_scanned [OF s] obtain scanned unread where
    d: "ss = scanned @ unread" "readable js fs root scanned"
       "unread = [] \<or> k \<le> int (length (corpusHits js fs root query scanned))"
    by auto
  have "searchTranscripts js fs root query k =
          Inr (take (nat k) (corpusHits js fs root query scanned))"
    using searchTranscripts_scanned [OF _ d(2) assms d(3)] g d(1) by simp
  then have "hits = take (nat k) (corpusHits js fs root query scanned)" using r by simp
  then show "\<exists>scanned unread.
        getSessions js fs root 200 = Inr (scanned @ unread) \<and> readable js fs root scanned \<and>
        (unread = [] \<or> k \<le> int (length (corpusHits js fs root query scanned))) \<and>
        hits = take (nat k) (corpusHits js fs root query scanned)"
    using g d by blast
next
  assume "\<exists>scanned unread.
        getSessions js fs root 200 = Inr (scanned @ unread) \<and> readable js fs root scanned \<and>
        (unread = [] \<or> k \<le> int (length (corpusHits js fs root query scanned))) \<and>
        hits = take (nat k) (corpusHits js fs root query scanned)"
  then obtain scanned unread where
    d: "getSessions js fs root 200 = Inr (scanned @ unread)" "readable js fs root scanned"
       "unread = [] \<or> k \<le> int (length (corpusHits js fs root query scanned))"
       "hits = take (nat k) (corpusHits js fs root query scanned)"
    by blast
  show "searchTranscripts js fs root query k = Inr hits"
    using searchTranscripts_scanned [OF d(1,2) assms d(3)] d(4) by simp
qed

lemma sorted_wrt_replicate: "(\<forall>x. P x x) \<Longrightarrow> sorted_wrt P (replicate n x)"
  by (induction n) auto

lemma map_session_sessionHits:
  "map session (sessionHits js query sess msgs) =
     replicate (length (filter (isMatch js query) msgs)) sess"
  by (induction msgs) (auto simp: sessionHits_def hitOf_def)

lemma corpusHits_Cons:
  "corpusHits js fs root query (s # ss) =
     sessionHits js query s (messagesOf js fs root s) @ corpusHits js fs root query ss"
  by (simp add: corpusHits_def)

lemma set_sessions_corpusHits:
  "set (map session (corpusHits js fs root query ss)) \<subseteq> set ss"
proof (induction ss)
  case Nil
  show ?case by (simp add: corpusHits_def)
next
  case (Cons s ss)
  have "set (map session (sessionHits js query s (messagesOf js fs root s))) \<subseteq> {s}"
    unfolding map_session_sessionHits by (simp add: set_replicate_conv_if)
  then show ?case
    using Cons unfolding corpusHits_Cons map_append set_append by auto
qed

lemma corpusHits_sessions_sorted:
  assumes "\<forall>x. P x x" "sorted_wrt P ss"
  shows "sorted_wrt P (map session (corpusHits js fs root query ss))"
  using assms(2)
proof (induction ss)
  case Nil
  show ?case by (simp add: corpusHits_def)
next
  case (Cons s ss)
  have tail: "sorted_wrt P (map session (corpusHits js fs root query ss))"
    using Cons by simp
  have cross: "\<forall>y \<in> set (map session (corpusHits js fs root query ss)). P s y"
    using Cons.prems set_sessions_corpusHits [of js fs root query ss] by auto
  have one: "sorted_wrt P (replicate (length (filter (isMatch js query) (messagesOf js fs root s))) s)"
    using assms(1) by (rule sorted_wrt_replicate)
  show ?case
    unfolding corpusHits_Cons map_append map_session_sessionHits
    using tail cross one by (auto simp: sorted_wrt_append)
qed

lemma sorted_wrt_prefix: "sorted_wrt P (xs @ ys) \<Longrightarrow> sorted_wrt P xs"
  by (simp add: sorted_wrt_append)

text \<open>
  Claim C6, as amended.  For every query and every cap \<open>k \<ge> 1\<close>, \<open>searchTranscripts\<close>
  returns hits exactly when the sessions it reads can be read.  The sessions read are a
  prefix of the 200 sessions of \<open>getSessions\<close> that is the whole list or has \<open>k\<close> hits
  already: no session after it is read.  The hits returned are the first \<open>k\<close> hits of
  the sessions read, in the order of the sessions and, within a session, of the messages
  in the file.  So at most \<open>k\<close> hits are returned; and when the last activity of every
  collected session is a valid date, the sessions of the hits are in non-increasing
  order of \<open>lastActivityTime\<close>.
\<close>

theorem searchTranscripts_capped:
  assumes "1 \<le> k"
  shows "(searchTranscripts js fs root query k = Inr hits \<longleftrightarrow>
           (\<exists>scanned unread.
              getSessions js fs root 200 = Inr (scanned @ unread) \<and>
              readable js fs root scanned \<and>
              (unread = [] \<or> k \<le> int (length (corpusHits js fs root query scanned))) \<and>
              hits = take (nat k) (corpusHits js fs root query scanned))) \<and>
         (searchTranscripts js fs root query k = Inr hits \<longrightarrow> int (length hits) \<le> k) \<and>
         (searchTranscripts js fs root query k = Inr hits \<and> validActivityTimes js fs root \<longrightarrow>
            sorted_wrt (\<lambda>a b. getTime (lastActivityTime (session b)) \<le>
                               getTime (lastActivityTime (session a))) hits)"
proof (intro conjI impI)
  show "searchTranscripts js fs root query k = Inr hits \<longleftrightarrow>
           (\<exists>scanned unread.
              getSessions js fs root 200 = Inr (scanned @ unread) \<and>
              readable js fs root scanned \<and>
              (unread = [] \<or> k \<le> int (length (corpusHits js fs root query scanned))) \<and>
              hits = take (nat k) (corpusHits js fs root query scanned))"
    using assms by (rule searchTranscripts_Inr_iff)
next
  assume "searchTranscripts js fs root query k = Inr hits"
  then obtain scanned where "hits = take (nat k) (corpusHits js fs root query scanned)"
    using searchTranscripts_Inr_iff [OF assms, of js fs root query hits] by blast
  then have "length hits \<le> nat k" by simp
  then show "int (length hits) \<le> k" using assms by linarith
next
  assume a: "searchTranscripts js fs root query k = Inr hits \<and> validActivityTimes js fs root"
  then obtain scanned unread where
    g: "getSessions js fs root 200 = Inr (scanned @ unread)" and
    h: "hits = take (nat k) (corpusHits js fs root query scanned)"
    using searchTranscripts_Inr_iff [OF assms, of js fs root query hits] by blast
  have n: "(0::int) \<le> 200" by simp
  have "sorted_wrt (\<lambda>a b. getTime (lastActivityTime b) \<le> getTime (lastActivityTime a))
          (scanned @ unread)"
    using getSessions_sorted [OF g n] a by simp
  then have "sorted_wrt (\<lambda>a b. getTime (lastActivityTime b) \<le> getTime (lastActivityTime a)) scanned"
    by (rule sorted_wrt_prefix)
  then have "sorted_wrt (\<lambda>a b. getTime (lastActivityTime b) \<le> getTime (lastActivityTime a))
               (map session (corpusHits js fs root query scanned))"
    by (intro corpusHits_sessions_sorted) simp_all
  then have "sorted_wrt (\<lambda>a b. getTime (lastActivityTime (session b)) \<le>
                               getTime (lastActivityTime (session a)))
               (corpusHits js fs root query scanned)"
    by (simp add: sorted_wrt_map)
  then show "sorted_wrt (\<lambda>a b. getTime (lastActivityTime (session b)) \<le>
                               getTime (lastActivityTime (session a))) hits"
    unfolding h by (rule sorted_wrt_take_list)
qed

theorem searchTranscripts_capped_witness:
  "getSessions exampleJS shadowedFS ''/r'' 200 = Inr ([sessionC] @ [sessionA]) \<and>
   readable exampleJS shadowedFS ''/r'' [sessionC] \<and>
   \<not> readable exampleJS shadowedFS ''/r'' [sessionA] \<and>
   1 \<le> int (length (corpusHits exampleJS shadowedFS ''/r'' ''x'' [sessionC])) \<and>
   searchTranscripts exampleJS shadowedFS ''/r'' ''x'' 1 =
     Inr (take (nat 1) (corpusHits exampleJS shadowedFS ''/r'' ''x'' [sessionC])) \<and>
   map (\<lambda>h. (s_id (session h), m_role (message h)))
     (take (nat 1) (corpusHits exampleJS shadowedFS ''/r'' ''x'' [sessionC])) = [(''c'', ''user'')] \<and>
   searchTranscripts exampleJS shadowedFS ''/r'' ''x'' 3 = Inl EISDIR \<and>
   validActivityTimes exampleJS brokenFileFS ''/r'' \<and>
   (\<exists>hits. searchTranscripts exampleJS brokenFileFS ''/r'' ''X'' 2 = Inr hits \<and>
      map (\<lambda>h. (s_id (session h), lastActivityTime (session h))) hits =
        [(''c'', Some 7), (''b'', Some 5)] \<and>
      int (length hits) \<le> 2 \<and>
      sorted_wrt (\<lambda>a b. getTime (lastActivityTime (session b)) \<le>
                         getTime (lastActivityTime (session a))) hits)"
proof -
  have g: "getSessions exampleJS shadowedFS ''/r'' 200 = Inr ([sessionC] @ [sessionA])"
    by code_simp
  have r: "readable exampleJS shadowedFS ''/r'' [sessionC]" by code_simp
  have u: "\<not> readable exampleJS shadowedFS ''/r'' [sessionA]" by code_simp
  have c: "1 \<le> int (length (corpusHits exampleJS shadowedFS ''/r'' ''x'' [sessionC]))"
    by code_simp
  have m: "map (\<lambda>h. (s_id (session h), m_role (message h)))
     (take (nat 1) (corpusHits exampleJS shadowedFS ''/r'' ''x'' [sessionC])) = [(''c'', ''user'')]"
    by code_simp
  have t: "searchTranscripts exampleJS shadowedFS ''/r'' ''x'' 3 = Inl EISDIR" by code_simp
  have v: "validActivityTimes exampleJS brokenFileFS ''/r''" by code_simp
  have e: "map_sum id (map (\<lambda>h. (s_id (session h), lastActivityTime (session h))))
             (searchTranscripts exampleJS brokenFileFS ''/r'' ''X'' 2) =
           Inr [(''c'', Some 7), (''b'', Some 5)]"
    by code_simp
  then obtain hits where h: "searchTranscripts exampleJS brokenFileFS ''/r'' ''X'' 2 = Inr hits"
    by (cases "searchTranscripts exampleJS brokenFileFS ''/r'' ''X'' 2") auto
  have hm: "map (\<lambda>h. (s_id (session h), lastActivityTime (session h))) hits =
        [(''c'', Some 7), (''b'', Some 5)]"
    using e h by simp
  have k1: "(1::int) \<le> 1" by simp
  have k2: "(1::int) \<le> 2" by simp
  have ex: "\<exists>scanned unread.
      getSessions exampleJS shadowedFS ''/r'' 200 = Inr (scanned @ unread) \<and>
      readable exampleJS shadowedFS ''/r'' scanned \<and>
      (unread = [] \<or> 1 \<le> int (length (corpusHits exampleJS shadowedFS ''/r'' ''x'' scanned))) \<and>
      take (nat 1) (corpusHits exampleJS shadowedFS ''/r'' ''x'' [sessionC]) =
        take (nat 1) (corpusHits exampleJS shadowedFS ''/r'' ''x'' scanned)"
    by (rule exI [of _ "[sessionC]"], rule exI [of _ "[sessionA]"], intro conjI,
        rule g, rule r, rule disjI2, rule c, rule refl)
  note early = searchTranscripts_capped [OF k1, where js = exampleJS and fs = shadowedFS
      and root = "''/r''" and query = "''x''"
      and hits = "take (nat 1) (corpusHits exampleJS shadowedFS ''/r'' ''x'' [sessionC])"]
  have s1: "searchTranscripts exampleJS shadowedFS ''/r'' ''x'' 1 =
     Inr (take (nat 1) (corpusHits exampleJS shadowedFS ''/r'' ''x'' [sessionC]))"
    using conjunct1 [OF early] ex by (rule iffD2)
  note order = searchTranscripts_capped [OF k2, where js = exampleJS and fs = brokenFileFS
      and root = "''/r''" and query = "''X''" and hits = hits]
  have a: "int (length hits) \<le> 2"
    using conjunct1 [OF conjunct2 [OF order]] h by (rule mp)
  have b: "sorted_wrt (\<lambda>a b. getTime (lastActivityTime (session b)) \<le>
                         getTime (lastActivityTime (session a))) hits"
    using conjunct2 [OF conjunct2 [OF order]] conjI [OF h v] by (rule mp)
  have ex2: "\<exists>hits. searchTranscripts exampleJS brokenFileFS ''/r'' ''X'' 2 = Inr hits \<and>
      map (\<lambda>h. (s_id (session h), lastActivityTime (session h))) hits =
        [(''c'', Some 7), (''b'', Some 5)] \<and>
      int (length hits) \<le> 2 \<and>
      sorted_wrt (\<lambda>a b. getTime (lastActivityTime (session b)) \<le>
                         getTime (lastActivityTime (session a))) hits"
    by (rule exI [of _ hits], intro conjI, rule h, rule hm, rule a, rule b)
  show ?thesis by (intro conjI g r u c s1 m t v ex2)
qed

text \<open>
  The claim as stated fails at the cap \<open>0\<close>: the cap is tested only after a hit has been
  added, so one hit is returned.
\<close>

theorem searchTranscripts_cap_zero:
  "map_sum id (map matchContext) (searchTranscripts exampleJS oneTranscriptFS ''/r'' ''fix'' 0) =
     Inr [''Fix the parser'']"
  by code_simp

subsection \<open>The empty query\<close>

lemma str_includes_empty: "str_includes s []"
  by (cases s) (simp_all add: startsWith_def)

lemma indexOf_empty: "indexOf s [] = 0"
  by (cases s) (simp_all add: startsWith_def)

lemma matchContextOf_empty:
  "toLowerCase js [] = [] \<Longrightarrow>
     matchContextOf js [] text = take 50 text @ (if 50 < length text then ''...'' else [])"
  by (simp add: matchContextOf_def indexOf_empty js_slice_def Let_def min_def)

lemma sessionHits_empty_query:
  "toLowerCase js [] = [] \<Longrightarrow> sessionHits js [] sess msgs = map (headHit sess) msgs"
  by (simp add: sessionHits_def isMatch_def hitOf_def headHit_def str_includes_empty
                matchContextOf_empty)

lemma corpusHits_empty_query:
  "toLowerCase js [] = [] \<Longrightarrow>
     corpusHits js fs root [] ss =
       concat (map (\<lambda>sess. map (headHit sess) (messagesOf js fs root sess)) ss)"
  by (simp add: corpusHits_def sessionHits_empty_query)

lemma length_corpusHits_empty_query:
  "toLowerCase js [] = [] \<Longrightarrow>
     length (corpusHits js fs root [] ss) = length (concat (map (messagesOf js fs root) ss))"
  by (induction ss) (simp_all add: corpusHits_def sessionHits_empty_query)

text \<open>
  Claim C10, as amended.  For every cap \<open>k \<ge> 1\<close>, where the empty string is lowered to
  itself, \<open>searchTranscripts\<close> with the empty query returns hits exactly when the
  sessions it reads can be read, and then returns one hit for every message of the
  sessions read, in the order of the sessions and of the messages in each file, up to
  \<open>k\<close> hits.  The context of a hit is the first 50 characters of the message, with
  \<open>...\<close> behind when the message is longer.
\<close>

theorem searchTranscripts_empty_query:
  assumes "1 \<le> k" and "toLowerCase js [] = []"
  shows "searchTranscripts js fs root [] k = Inr hits \<longleftrightarrow>
     (\<exists>scanned unread.
        getSessions js fs root 200 = Inr (scanned @ unread) \<and> readable js fs root scanned \<and>
        (unread = [] \<or> k \<le> int (length (concat (map (messagesOf js fs root) scanned)))) \<and>
        hits = take (nat k)
                 (concat (map (\<lambda>sess. map (headHit sess) (messagesOf js fs root sess)) scanned)))"
proof -
  have l: "\<And>ss. length (corpusHits js fs root [] ss) =
                  length (concat (map (messagesOf js fs root) ss))"
    using assms(2) by (rule length_corpusHits_empty_query)
  show ?thesis
    unfolding searchTranscripts_Inr_iff [OF assms(1)] l
    unfolding corpusHits_empty_query [OF assms(2)] ..
qed

theorem searchTranscripts_empty_query_witness:
  "toLowerCase exampleJS [] = [] \<and>
   getSessions exampleJS oneTranscriptFS ''/r'' 200 = Inr ([session longReplyHit] @ []) \<and>
   readable exampleJS oneTranscriptFS ''/r'' [session longReplyHit] \<and>
   searchTranscripts exampleJS oneTranscriptFS ''/r'' [] 2 =
     Inr (take (nat 2)
            (concat (map (\<lambda>sess. map (headHit sess) (messagesOf exampleJS oneTranscriptFS ''/r'' sess))
                       [session longReplyHit]))) \<and>
   map matchContext
     (take (nat 2)
        (concat (map (\<lambda>sess. map (headHit sess) (messagesOf exampleJS oneTranscriptFS ''/r'' sess))
                   [session longReplyHit]))) =
     [''Fix the parser'', ''01234567890123456789012345678901234567890123456789...'']"
proof -
  have l: "toLowerCase exampleJS [] = []" by code_simp
  have g: "getSessions exampleJS oneTranscriptFS ''/r'' 200 = Inr ([session longReplyHit] @ [])"
    by code_simp
  have r: "readable exampleJS oneTranscriptFS ''/r'' [session longReplyHit]" by code_simp
  have m: "map matchContext
     (take (nat 2)
        (concat (map (\<lambda>sess. map (headHit sess) (messagesOf exampleJS oneTranscriptFS ''/r'' sess))
                   [session longReplyHit]))) =
     [''Fix the parser'', ''01234567890123456789012345678901234567890123456789...'']"
    by code_simp
  have k: "(1::int) \<le> 2" by simp
  have ex: "\<exists>scanned unread.
      getSessions exampleJS oneTranscriptFS ''/r'' 200 = Inr (scanned @ unread) \<and>
      readable exampleJS oneTranscriptFS ''/r'' scanned \<and>
      (unread = [] \<or>
       2 \<le> int (length (concat (map (messagesOf exampleJS oneTranscriptFS ''/r'') scanned)))) \<and>
      take (nat 2)
        (concat (map (\<lambda>sess. map (headHit sess) (messagesOf exampleJS oneTranscriptFS ''/r'' sess))
                   [session longReplyHit])) =
      take (nat 2)
        (concat (map (\<lambda>sess. map (headHit sess) (messagesOf exampleJS oneTranscriptFS ''/r'' sess))
                   scanned))"
    by (rule exI [of _ "[session longReplyHit]"], rule exI [of _ "[]"], intro conjI,
        rule g, rule r, rule disjI1, rule refl, rule refl)
  have s: "searchTranscripts exampleJS oneTranscriptFS ''/r'' [] 2 =
     Inr (take (nat 2)
            (concat (map (\<lambda>sess. map (headHit sess) (messagesOf exampleJS oneTranscriptFS ''/r'' sess))
                       [session longReplyHit])))"
    using searchTranscripts_empty_query [OF k l, where fs = oneTranscriptFS and root = "''/r''"
      and hits = "take (nat 2)
            (concat (map (\<lambda>sess. map (headHit sess) (messagesOf exampleJS oneTranscriptFS ''/r'' sess))
                       [session longReplyHit]))"] ex
    by (rule iffD2)
  show ?thesis by (intro conjI l g r s m)
qed

text \<open>
  The claim as stated fails at the cap \<open>0\<close>: one hit is returned, which is more than
  \<open>maxResults\<close>.
\<close>

theorem searchTranscripts_empty_query_cap_zero:
  "map_sum id (map matchContext) (searchTranscripts exampleJS oneTranscriptFS ''/r'' [] 0) =
     Inr [''Fix the parser'']"
  by code_simp

end
